theory Spec2Isabelle
  imports Complex_Main "HOL-Library.Multiset"
begin

section \<open>Edge/cloud resource allocation: data model\<close>

text \<open>
  The development embeds the allocation engine of the simulator: the structs of
  \<^verbatim>\<open>structs.h\<close>, the capacity primitives of \<^verbatim>\<open>Server\<close>, the pre-calculation of
  \<^verbatim>\<open>NetworkResourceAllocation\<close>, the heuristics of \<^verbatim>\<open>Heuristics.h\<close> and the simulated
  annealing of \<^verbatim>\<open>MetaHeuristics.h\<close>.

  Conventions of the embedding.
  \<^item> A C++ \<^verbatim>\<open>double\<close> is a \<^typ>\<open>real\<close>: rounding, infinities and NaN are not modelled.
  \<^item> A C++ \<^verbatim>\<open>int\<close> is an \<^typ>\<open>int\<close>; signed overflow (undefined behaviour in C++) is
    not modelled.
  \<^item> \<^verbatim>\<open>std::vector::at\<close> throws \<^verbatim>\<open>std::out_of_range\<close>, the random utilities throw
    \<^verbatim>\<open>std::invalid_argument\<close>: both are values of the type \<open>error\<close>, and a function
    that can throw returns \<open>error + 'a\<close>.
  \<^item> The process-wide random engine is an explicit argument: the raw numbers it yields.
  \<^item> Fields shared by several structs carry a prefix (\<open>dev_\<close>, \<open>srv_\<close>, \<open>cov_\<close>, \<open>st_\<close>),
    since record fields share one name space.
\<close>

datatype error = OutOfRange | InvalidArgument

record server_covering =
  cov_id :: int
  id_routing :: int
  distance :: real
  connectionTime :: real
  processingTime :: real
  responseTime :: real

record server_supply =
  pcnD :: int
  cndD :: real
  pccD :: real
  memD :: real
  stoD :: real
  bwD :: real
  devices_served :: "int set"

record Device =
  dev_id :: int
  dev_pcn :: int
  svc :: int
  dev_lat :: real
  dev_lon :: real
  cnd :: real
  dev_pcc :: real
  dev_mem :: real
  dev_sto :: real
  s_d :: real
  dev_bw :: real
  covered :: bool
  served :: bool
  server :: server_covering
  servers :: "server_covering list"

record Server =
  srv_id :: int
  srv_pcn :: int
  srv_type :: char
  srv_lat :: real
  srv_lon :: real
  csc :: real
  pcc_per_core :: real
  pcc_total :: real
  srv_mem :: real
  srv_sto :: real
  t_p :: real
  srv_bw :: real
  srv_on :: bool
  srv_supply :: server_supply

text \<open>The default-constructed link \<^verbatim>\<open>server_covering()\<close> and the two other constructors.\<close>

definition server_covering0 :: server_covering where
  "server_covering0 = \<lparr>cov_id = 0, id_routing = 0, distance = 0, connectionTime = 0,
     processingTime = 0, responseTime = 0\<rparr>"

definition server_covering1 :: "int \<Rightarrow> server_covering" where
  "server_covering1 i = server_covering0\<lparr>cov_id := i\<rparr>"

definition server_covering2 :: "int \<Rightarrow> real \<Rightarrow> server_covering" where
  "server_covering2 i dst = server_covering0\<lparr>cov_id := i, distance := dst\<rparr>"

definition server_supply0 :: server_supply where
  "server_supply0 = \<lparr>pcnD = 0, cndD = 0, pccD = 0, memD = 0, stoD = 0, bwD = 0,
     devices_served = {}\<rparr>"

text \<open>The constructors \<^verbatim>\<open>Device()\<close>, \<^verbatim>\<open>Device(id, lat, lon, cnd, pcc, pcn, mem, sto, s_d, svc)\<close>,
  \<^verbatim>\<open>Server()\<close> and \<^verbatim>\<open>Server(id, lat, lon, csc, pcc, pcn, mem, sto, t_p, type)\<close>; the second
  server constructor computes \<open>pcc_total = pcc * pcn\<close>.\<close>

definition Device0 :: Device where
  "Device0 = \<lparr>dev_id = 0, dev_pcn = 0, svc = 0, dev_lat = 0, dev_lon = 0, cnd = 0, dev_pcc = 0,
     dev_mem = 0, dev_sto = 0, s_d = 0, dev_bw = 0, covered = False, served = False,
     server = server_covering0, servers = []\<rparr>"

definition mkDevice ::
  "int \<Rightarrow> real \<Rightarrow> real \<Rightarrow> real \<Rightarrow> real \<Rightarrow> int \<Rightarrow> real \<Rightarrow> real \<Rightarrow> real \<Rightarrow> int \<Rightarrow> Device" where
  "mkDevice id0 lat0 lon0 cnd0 pcc0 pcn0 mem0 sto0 s_d0 svc0 =
     \<lparr>dev_id = id0, dev_pcn = pcn0, svc = svc0, dev_lat = lat0, dev_lon = lon0, cnd = cnd0,
      dev_pcc = pcc0, dev_mem = mem0, dev_sto = sto0, s_d = s_d0, dev_bw = 0, covered = False,
      served = False, server = server_covering0, servers = []\<rparr>"

definition Server0 :: Server where
  "Server0 = \<lparr>srv_id = 0, srv_pcn = 0, srv_type = CHR '' '', srv_lat = 0, srv_lon = 0, csc = 0,
     pcc_per_core = 0, pcc_total = 0, srv_mem = 0, srv_sto = 0, t_p = 0, srv_bw = 0,
     srv_on = False, srv_supply = server_supply0\<rparr>"

definition mkServer ::
  "int \<Rightarrow> real \<Rightarrow> real \<Rightarrow> real \<Rightarrow> real \<Rightarrow> int \<Rightarrow> real \<Rightarrow> real \<Rightarrow> real \<Rightarrow> char \<Rightarrow> Server" where
  "mkServer id0 lat0 lon0 csc0 pcc0 pcn0 mem0 sto0 t_p0 type0 =
     \<lparr>srv_id = id0, srv_pcn = pcn0, srv_type = type0, srv_lat = lat0, srv_lon = lon0, csc = csc0,
      pcc_per_core = pcc0, pcc_total = pcc0 * real_of_int pcn0, srv_mem = mem0, srv_sto = sto0,
      t_p = t_p0, srv_bw = 0, srv_on = False, srv_supply = server_supply0\<rparr>"

text \<open>
  The run state \<^verbatim>\<open>Result\<close> and its \<^verbatim>\<open>Metrics\<close>. The wall-clock field
  \<^verbatim>\<open>execution_time_sec\<close> is left out: it is the only field written from the clock.
\<close>

record Metrics =
  simulation_type :: string
  algorithm_name :: string
  in_devices :: int
  in_servers_ec :: int
  in_servers_cc :: int
  in_tech :: int
  devices_covered_count :: int
  devices_served_count :: int
  devices_served_ec_count :: int
  devices_served_cc_count :: int
  servers_used_count :: int
  servers_used_ec_count :: int
  servers_used_cc_count :: int
  cost_of_servers_used :: real
  cost_of_non_coverage :: real
  cost_of_non_service :: real
  total_cost :: real
  average_response_time :: real

definition mkMetrics :: "string \<Rightarrow> string \<Rightarrow> int \<Rightarrow> int \<Rightarrow> int \<Rightarrow> int \<Rightarrow> Metrics" where
  "mkMetrics simulation algorithm d s_ec s_cc t =
     \<lparr>simulation_type = simulation, algorithm_name = algorithm, in_devices = d,
      in_servers_ec = s_ec, in_servers_cc = s_cc, in_tech = t, devices_covered_count = 0,
      devices_served_count = 0, devices_served_ec_count = 0, devices_served_cc_count = 0,
      servers_used_count = 0, servers_used_ec_count = 0, servers_used_cc_count = 0,
      cost_of_servers_used = 0, cost_of_non_coverage = 0, cost_of_non_service = 0,
      total_cost = 0, average_response_time = 0\<rparr>"

record Result =
  st_devices :: "Device list"
  st_servers :: "Server list"
  coveredDevicesIdx :: "int list"
  metrics :: Metrics

text \<open>\<^verbatim>\<open>std::vector::at\<close> with an \<^verbatim>\<open>int\<close> index: a negative index converts to a huge
  \<^verbatim>\<open>size_t\<close> and is out of range as well.\<close>

definition at_idx :: "'a list \<Rightarrow> int \<Rightarrow> error + 'a" where
  "at_idx xs i = (if 0 \<le> i \<and> i < int (length xs) then Inr (xs ! nat i) else Inl OutOfRange)"

section \<open>Capacity model\<close>

text \<open>\<^verbatim>\<open>Server::canServe\<close>: the five-dimensional capacity check, no mutation.\<close>

definition canServe :: "Server \<Rightarrow> Device \<Rightarrow> bool" where
  "canServe s device \<longleftrightarrow>
     pccD (srv_supply s) + dev_pcc device \<le> pcc_total s \<and>
     pcnD (srv_supply s) + dev_pcn device \<le> srv_pcn s \<and>
     memD (srv_supply s) + dev_mem device \<le> srv_mem s \<and>
     stoD (srv_supply s) + dev_sto device \<le> srv_sto s \<and>
     bwD (srv_supply s) + dev_bw device \<le> srv_bw s"

text \<open>
  \<^verbatim>\<open>Server::addServed\<close> mutates the server and the device it is given by reference;
  the model returns the flag together with both updated objects.
\<close>

definition addServed :: "Server \<Rightarrow> Device \<Rightarrow> bool \<times> Server \<times> Device" where
  "addServed s device =
     (if dev_id device \<in> devices_served (srv_supply s) then (False, s, device)
      else (True,
            s\<lparr>srv_on := True,
              srv_supply := (srv_supply s)\<lparr>
                devices_served := insert (dev_id device) (devices_served (srv_supply s)),
                cndD := cndD (srv_supply s) + cnd device,
                pccD := pccD (srv_supply s) + dev_pcc device,
                pcnD := pcnD (srv_supply s) + dev_pcn device,
                memD := memD (srv_supply s) + dev_mem device,
                stoD := stoD (srv_supply s) + dev_sto device,
                bwD := bwD (srv_supply s) + dev_bw device\<rparr>\<rparr>,
            device\<lparr>served := True\<rparr>))"

text \<open>\<^verbatim>\<open>Server::rmvServed\<close>.\<close>

definition rmvServed :: "Server \<Rightarrow> Device \<Rightarrow> bool \<times> Server \<times> Device" where
  "rmvServed s device =
     (if dev_id device \<notin> devices_served (srv_supply s) then (False, s, device)
      else
        (let ds = devices_served (srv_supply s) - {dev_id device};
             sup = (srv_supply s)\<lparr>
                devices_served := ds,
                cndD := cndD (srv_supply s) - cnd device,
                pccD := pccD (srv_supply s) - dev_pcc device,
                pcnD := pcnD (srv_supply s) - dev_pcn device,
                memD := memD (srv_supply s) - dev_mem device,
                stoD := stoD (srv_supply s) - dev_sto device,
                bwD := bwD (srv_supply s) - dev_bw device\<rparr>
         in (True,
             (if ds = {} then s\<lparr>srv_supply := sup, srv_on := False\<rparr> else s\<lparr>srv_supply := sup\<rparr>),
             device\<lparr>served := False\<rparr>)))"

section \<open>Random and sorting utilities\<close>

text \<open>
  \<^verbatim>\<open>utils::randomNumber<int>(min, max)\<close> throws when \<open>min > max\<close> and otherwise yields a
  value of the inclusive interval; \<open>r\<close> is the raw number the engine supplies, and every
  value of the interval arises from some \<open>r\<close>.
\<close>

definition randomNumber :: "int \<Rightarrow> int \<Rightarrow> nat \<Rightarrow> error + int" where
  "randomNumber lo hi r =
     (if lo > hi then Inl InvalidArgument else Inr (lo + int r mod (hi - lo + 1)))"

text \<open>
  \<^verbatim>\<open>std::shuffle\<close>: the permutation is selected by the raw numbers of the engine, one
  per position; when the raw numbers run out the rest keeps its order.
\<close>

fun shuffle :: "nat list \<Rightarrow> 'a list \<Rightarrow> 'a list" where
  "shuffle rs [] = []"
| "shuffle [] xs = xs"
| "shuffle (r # rs) xs =
     (let k = r mod length xs in xs ! k # shuffle rs (take k xs @ drop (Suc k) xs))"

text \<open>\<^verbatim>\<open>utils::shuffledRange<int>(min, max)\<close>.\<close>

definition shuffledRange :: "int \<Rightarrow> int \<Rightarrow> nat list \<Rightarrow> error + int list" where
  "shuffledRange lo hi rs =
     (if lo > hi then Inl InvalidArgument else Inr (shuffle rs [lo..hi]))"

text \<open>
  \<^verbatim>\<open>std::sort\<close> with a comparator \<open>lt\<close>, as an insertion sort. When \<open>lt\<close> is a strict
  total order, as the comparator of \<^verbatim>\<open>sort_indices_impl\<close> is on valid indices, every
  sorting algorithm returns the same list (lemma \<open>sorted_by_unique\<close> below); on ties of
  \<open>lt\<close> the order of \<^verbatim>\<open>std::sort\<close> is implementation-defined and the model keeps the
  order of the input.
\<close>

fun insert_by :: "('a \<Rightarrow> 'a \<Rightarrow> bool) \<Rightarrow> 'a \<Rightarrow> 'a list \<Rightarrow> 'a list" where
  "insert_by lt x [] = [x]"
| "insert_by lt x (y # ys) = (if lt y x then y # insert_by lt x ys else x # y # ys)"

definition std_sort :: "('a \<Rightarrow> 'a \<Rightarrow> bool) \<Rightarrow> 'a list \<Rightarrow> 'a list" where
  "std_sort lt xs = foldr (insert_by lt) xs []"

text \<open>
  The comparator of \<^verbatim>\<open>details::sort_indices_impl\<close>; \<open>attr\<close> is the attribute that the
  template parameter \<^verbatim>\<open>AttributePtr\<close> selects.
\<close>

definition index_before :: "bool \<Rightarrow> ('e \<Rightarrow> real) \<Rightarrow> 'e list \<Rightarrow> int \<Rightarrow> int \<Rightarrow> bool" where
  "index_before ascending attr entities i j =
     (let attr_i = attr (entities ! nat i); attr_j = attr (entities ! nat j)
      in if attr_i \<noteq> attr_j then (if ascending then attr_i < attr_j else attr_i > attr_j)
         else i < j)"

text \<open>
  \<^verbatim>\<open>details::sort_indices_impl\<close>. The comparator reads \<^verbatim>\<open>entities.at(i)\<close>, which throws
  for an index out of range; sorting two or more elements compares every element at
  least once, sorting fewer compares nothing.
\<close>

definition sort_indices_impl ::
  "bool \<Rightarrow> ('e \<Rightarrow> real) \<Rightarrow> 'e list \<Rightarrow> int list \<Rightarrow> error + int list" where
  "sort_indices_impl ascending attr entities idxs =
     (if 2 \<le> length idxs \<and> (\<exists>i \<in> set idxs. \<not> (0 \<le> i \<and> i < int (length entities)))
      then Inl OutOfRange
      else Inr (std_sort (index_before ascending attr entities) idxs))"

text \<open>\<^verbatim>\<open>utils::sortEntities\<close>, the overload that sorts a given subset of indices.\<close>

definition sortEntities ::
  "bool \<Rightarrow> ('e \<Rightarrow> real) \<Rightarrow> 'e list \<Rightarrow> int list \<Rightarrow> error + int list" where
  "sortEntities ascending attr entities indices_to_sort =
     (if entities = [] \<or> indices_to_sort = [] then Inr []
      else sort_indices_impl ascending attr entities indices_to_sort)"

section \<open>Metrics aggregator\<close>

text \<open>The two loops of \<^verbatim>\<open>calculateMetrics\<close>, then the function itself.\<close>

fun metrics_devices :: "Server list \<Rightarrow> Device list \<Rightarrow> Metrics \<Rightarrow> error + Metrics" where
  "metrics_devices srvs [] m = Inr m"
| "metrics_devices srvs (device # ds) m =
     (if dev_id device = 0 then metrics_devices srvs ds m
      else if served device then
        (case at_idx srvs (cov_id (server device)) of
           Inl e \<Rightarrow> Inl e
         | Inr s \<Rightarrow>
             (let m1 = m\<lparr>devices_served_count := devices_served_count m + 1,
                         average_response_time :=
                           average_response_time m + responseTime (server device)\<rparr>
              in metrics_devices srvs ds
                   (if srv_type s = CHR ''E''
                    then m1\<lparr>devices_served_ec_count := devices_served_ec_count m1 + 1\<rparr>
                    else m1\<lparr>devices_served_cc_count := devices_served_cc_count m1 + 1\<rparr>)))
      else if covered device then
        metrics_devices srvs ds (m\<lparr>cost_of_non_service := cost_of_non_service m + cnd device\<rparr>)
      else metrics_devices srvs ds m)"

fun metrics_servers :: "Server list \<Rightarrow> Metrics \<Rightarrow> Metrics" where
  "metrics_servers [] m = m"
| "metrics_servers (s # ss) m =
     (if srv_id s = 0 then metrics_servers ss m
      else if srv_on s then
        (let m1 = m\<lparr>cost_of_servers_used := cost_of_servers_used m + csc s\<rparr>
         in metrics_servers ss
              (if srv_type s = CHR ''E''
               then m1\<lparr>servers_used_ec_count := servers_used_ec_count m1 + 1\<rparr>
               else m1\<lparr>servers_used_cc_count := servers_used_cc_count m1 + 1\<rparr>))
      else metrics_servers ss m)"

definition calculateMetrics :: "Device list \<Rightarrow> Server list \<Rightarrow> Metrics \<Rightarrow> error + Metrics" where
  "calculateMetrics devices srvs m =
     (let m0 = m\<lparr>devices_served_count := 0, devices_served_ec_count := 0,
                  devices_served_cc_count := 0, servers_used_count := 0,
                  servers_used_ec_count := 0, servers_used_cc_count := 0,
                  cost_of_servers_used := 0, cost_of_non_service := 0, total_cost := 0,
                  average_response_time := 0\<rparr>
      in case metrics_devices srvs devices m0 of
           Inl e \<Rightarrow> Inl e
         | Inr m1 \<Rightarrow>
             (let m2 = metrics_servers srvs m1;
                  m3 = (if devices_served_count m2 > 0
                        then m2\<lparr>average_response_time :=
                               average_response_time m2 / real_of_int (devices_served_count m2)\<rparr>
                        else m2);
                  m4 = m3\<lparr>servers_used_count :=
                               servers_used_ec_count m3 + servers_used_cc_count m3\<rparr>
              in Inr (m4\<lparr>total_cost := cost_of_non_coverage m4 + cost_of_non_service m4
                                  + cost_of_servers_used m4\<rparr>)))"

section \<open>Heuristics\<close>

text \<open>
  The loop of \<^verbatim>\<open>randomHeuristic\<close> over the shuffled covered indices; \<open>picks k\<close> is the
  raw number the engine supplies at the \<open>k\<close>-th visited device. The drawn index ranges
  over \<open>[0, size]\<close>, and the value \<open>size\<close> rejects the device.
\<close>

fun random_loop ::
  "(nat \<Rightarrow> nat) \<Rightarrow> nat \<Rightarrow> int list \<Rightarrow> Device list \<Rightarrow> Server list
     \<Rightarrow> error + (Device list \<times> Server list)" where
  "random_loop picks k [] devices srvs = Inr (devices, srvs)"
| "random_loop picks k (d_idx # rest) devices srvs =
     (case at_idx devices d_idx of
        Inl e \<Rightarrow> Inl e
      | Inr device \<Rightarrow>
          if servers device = [] then random_loop picks (Suc k) rest devices srvs
          else
            (case randomNumber 0 (int (length (servers device))) (picks k) of
               Inl e \<Rightarrow> Inl e
             | Inr s_idx \<Rightarrow>
                 if s_idx = int (length (servers device))
                 then random_loop picks (Suc k) rest devices srvs
                 else
                   (case at_idx (servers device) s_idx of
                      Inl e \<Rightarrow> Inl e
                    | Inr potential_server \<Rightarrow>
                        (case at_idx srvs (cov_id potential_server) of
                           Inl e \<Rightarrow> Inl e
                         | Inr s \<Rightarrow>
                             if canServe s device then
                               (case addServed s device of
                                  (ok, s', device') \<Rightarrow>
                                    random_loop picks (Suc k) rest
                                      (devices[nat d_idx := device'\<lparr>server := potential_server\<rparr>])
                                      (srvs[nat (cov_id potential_server) := s']))
                             else random_loop picks (Suc k) rest devices srvs))))"

text \<open>\<^verbatim>\<open>randomHeuristic\<close>; \<open>rs\<close> are the raw numbers consumed by the shuffle.\<close>

definition randomHeuristic :: "nat list \<Rightarrow> (nat \<Rightarrow> nat) \<Rightarrow> Result \<Rightarrow> error + Result" where
  "randomHeuristic rs picks state =
     (case random_loop picks 0 (shuffle rs (coveredDevicesIdx state))
             (st_devices state) (st_servers state) of
        Inl e \<Rightarrow> Inl e
      | Inr (devices, srvs) \<Rightarrow>
          (case calculateMetrics devices srvs (metrics state) of
             Inl e \<Rightarrow> Inl e
           | Inr m \<Rightarrow> Inr (state\<lparr>st_devices := devices, st_servers := srvs, metrics := m\<rparr>)))"

text \<open>
  The inner loop of \<^verbatim>\<open>greedyHeuristic\<close>: the first candidate, in the order of the
  sorted list, whose server can serve the device.
\<close>

fun greedy_commit ::
  "server_covering list \<Rightarrow> Device \<Rightarrow> Server list \<Rightarrow> error + (Device \<times> Server list)" where
  "greedy_commit [] device srvs = Inr (device, srvs)"
| "greedy_commit (potential_server # rest) device srvs =
     (case at_idx srvs (cov_id potential_server) of
        Inl e \<Rightarrow> Inl e
      | Inr s \<Rightarrow>
          if canServe s device then
            (case addServed s device of
               (ok, s', device') \<Rightarrow>
                 Inr (device'\<lparr>server := potential_server\<rparr>,
                      srvs[nat (cov_id potential_server) := s']))
          else greedy_commit rest device srvs)"

text \<open>The two comparators that \<^verbatim>\<open>greedyHeuristic\<close> hands to \<^verbatim>\<open>std::sort\<close>.\<close>

definition responseTime_before :: "bool \<Rightarrow> server_covering \<Rightarrow> server_covering \<Rightarrow> bool" where
  "responseTime_before sortServersAsc a b =
     (if sortServersAsc then responseTime a < responseTime b
      else responseTime a > responseTime b)"

fun greedy_loop ::
  "bool \<Rightarrow> int list \<Rightarrow> Device list \<Rightarrow> Server list \<Rightarrow> error + (Device list \<times> Server list)" where
  "greedy_loop sortServersAsc [] devices srvs = Inr (devices, srvs)"
| "greedy_loop sortServersAsc (d_idx # rest) devices srvs =
     (case at_idx devices d_idx of
        Inl e \<Rightarrow> Inl e
      | Inr device0 \<Rightarrow>
          (let device = device0\<lparr>servers :=
                  std_sort (responseTime_before sortServersAsc) (servers device0)\<rparr>
           in case greedy_commit (servers device) device srvs of
                Inl e \<Rightarrow> Inl e
              | Inr (device', srvs') \<Rightarrow>
                  greedy_loop sortServersAsc rest (devices[nat d_idx := device']) srvs'))"

text \<open>\<^verbatim>\<open>greedyHeuristic\<close>: the devices are visited in the order \<^verbatim>\<open>sortEntities\<close> returns.\<close>

definition greedyHeuristic :: "Result \<Rightarrow> bool \<Rightarrow> bool \<Rightarrow> error + Result" where
  "greedyHeuristic state sortDevicesAsc sortServersAsc =
     (case sortEntities sortDevicesAsc cnd (st_devices state) (coveredDevicesIdx state) of
        Inl e \<Rightarrow> Inl e
      | Inr sortedCoveredIdx \<Rightarrow>
          (case greedy_loop sortServersAsc sortedCoveredIdx (st_devices state) (st_servers state) of
             Inl e \<Rightarrow> Inl e
           | Inr (devices, srvs) \<Rightarrow>
               (case calculateMetrics devices srvs (metrics state) of
                  Inl e \<Rightarrow> Inl e
                | Inr m \<Rightarrow> Inr (state\<lparr>st_devices := devices, st_servers := srvs, metrics := m\<rparr>))))"

section \<open>Simulated annealing\<close>

text \<open>
  What the engine supplies in one attempt of the inner loop: the raw number for the
  device draw, the raw numbers for \<^verbatim>\<open>shuffledRange\<close>, and the value of
  \<^verbatim>\<open>randomNumber(0.0, 1.0)\<close>, which is read only when the neighbour does not improve.
\<close>

record draw =
  pick_device :: nat
  shuffle_raw :: "nat list"
  accept_u :: real

text \<open>
  The move at the end of \<^verbatim>\<open>generateNeighbor\<close>. \<^verbatim>\<open>old_server\<close> and \<^verbatim>\<open>new_server\<close> are
  references into the server vector, so the new server is read after the release has
  been written.
\<close>

definition neighbor_move ::
  "Device list \<Rightarrow> Server list \<Rightarrow> int \<Rightarrow> Device \<Rightarrow> server_covering \<Rightarrow> real \<Rightarrow> real
     \<Rightarrow> Device list \<times> Server list \<times> real \<times> real" where
  "neighbor_move devices srvs d_idx device potential_server cns csu =
     (let oid = nat (cov_id (server device));
          nid = nat (cov_id potential_server);
          csu1 = (if \<not> srv_on (srvs ! nid) then csu + csc (srvs ! nid) else csu)
      in case (if served device
               then (case rmvServed (srvs ! oid) device of
                       (ok, old', device') \<Rightarrow>
                         (srvs[oid := old'], device', cns,
                          if \<not> srv_on old' then csu1 - csc old' else csu1))
               else (srvs, device, cns - cnd device, csu1)) of
           (srvs2, device2, cns2, csu2) \<Rightarrow>
             (case addServed (srvs2 ! nid) device2 of
                (ok, new', device3) \<Rightarrow>
                  (devices[nat d_idx := device3\<lparr>server := potential_server\<rparr>],
                   srvs2[nid := new'], cns2, csu2)))"

text \<open>The loop of \<^verbatim>\<open>generateNeighbor\<close> over the shuffled candidate positions.\<close>

fun neighbor_loop ::
  "Device list \<Rightarrow> Server list \<Rightarrow> int \<Rightarrow> Device \<Rightarrow> real \<Rightarrow> real \<Rightarrow> nat \<Rightarrow> int list
     \<Rightarrow> error + (Device list \<times> Server list \<times> real \<times> real)" where
  "neighbor_loop devices srvs d_idx device cns csu tries [] = Inr (devices, srvs, cns, csu)"
| "neighbor_loop devices srvs d_idx device cns csu tries (idxServers # rest) =
     (if tries \<ge> 5 then Inr (devices, srvs, cns, csu)
      else
        (case at_idx (servers device) idxServers of
           Inl e \<Rightarrow> Inl e
         | Inr potential_server \<Rightarrow>
             if cov_id potential_server = cov_id (server device)
             then neighbor_loop devices srvs d_idx device cns csu (Suc tries) rest
             else
               (case at_idx srvs (cov_id (server device)) of
                  Inl e \<Rightarrow> Inl e
                | Inr old_server \<Rightarrow>
                    (case at_idx srvs (cov_id potential_server) of
                       Inl e \<Rightarrow> Inl e
                     | Inr new_server \<Rightarrow>
                         if canServe new_server device
                         then Inr (neighbor_move devices srvs d_idx device potential_server cns csu)
                         else neighbor_loop devices srvs d_idx device cns csu (Suc tries) rest))))"

text \<open>\<^verbatim>\<open>generateNeighbor\<close>.\<close>

definition generateNeighbor ::
  "Device list \<Rightarrow> Server list \<Rightarrow> int list \<Rightarrow> real \<Rightarrow> real \<Rightarrow> draw
     \<Rightarrow> error + (Device list \<times> Server list \<times> real \<times> real)" where
  "generateNeighbor devices srvs coveredIdx cns csu d =
     (case randomNumber 0 (int (length coveredIdx) - 1) (pick_device d) of
        Inl e \<Rightarrow> Inl e
      | Inr idx \<Rightarrow>
          (case at_idx coveredIdx idx of
             Inl e \<Rightarrow> Inl e
           | Inr d_idx \<Rightarrow>
               (case at_idx devices d_idx of
                  Inl e \<Rightarrow> Inl e
                | Inr device \<Rightarrow>
                    (case shuffledRange 0 (int (length (servers device)) - 1) (shuffle_raw d) of
                       Inl e \<Rightarrow> Inl e
                     | Inr serversShuffled \<Rightarrow>
                         neighbor_loop devices srvs d_idx device cns csu 0 serversShuffled))))"

text \<open>The local variables of \<^verbatim>\<open>simulatedAnnealing\<close>.\<close>

record sa_state =
  bestDevices :: "Device list"
  currentDevices :: "Device list"
  bestServers :: "Server list"
  currentServers :: "Server list"
  bestCNS :: real
  currentCNS :: real
  bestCSU :: real
  currentCSU :: real
  bestCost :: real
  currentCost :: real

definition sa_init :: "Result \<Rightarrow> sa_state" where
  "sa_init state =
     \<lparr>bestDevices = st_devices state, currentDevices = st_devices state,
      bestServers = st_servers state, currentServers = st_servers state,
      bestCNS = cost_of_non_service (metrics state),
      currentCNS = cost_of_non_service (metrics state),
      bestCSU = cost_of_servers_used (metrics state),
      currentCSU = cost_of_servers_used (metrics state),
      bestCost = cost_of_non_service (metrics state) + cost_of_servers_used (metrics state),
      currentCost = cost_of_non_service (metrics state) + cost_of_servers_used (metrics state)\<rparr>"

text \<open>
  The body of the inner loop: one neighbour and the acceptance test. The flag tells
  whether the neighbour improved the current solution, the case in which the body
  resets the loop counter.
\<close>

definition sa_iteration :: "int list \<Rightarrow> real \<Rightarrow> draw \<Rightarrow> sa_state \<Rightarrow> error + (bool \<times> sa_state)" where
  "sa_iteration coveredIdx T d s =
     (case generateNeighbor (currentDevices s) (currentServers s) coveredIdx
             (currentCNS s) (currentCSU s) d of
        Inl e \<Rightarrow> Inl e
      | Inr (neighborDevices, neighborServers, neighborCNS, neighborCSU) \<Rightarrow>
          (let neighborCost = neighborCNS + neighborCSU;
               delta = neighborCost - currentCost s;
               s1 = s\<lparr>currentCNS := neighborCNS, currentCSU := neighborCSU,
                      currentCost := neighborCost, currentDevices := neighborDevices,
                      currentServers := neighborServers\<rparr>
           in if delta < 0 then
                Inr (True,
                     if currentCost s1 < bestCost s1
                     then s1\<lparr>bestCNS := currentCNS s1, bestCSU := currentCSU s1,
                            bestCost := currentCost s1, bestDevices := currentDevices s1,
                            bestServers := currentServers s1\<rparr>
                     else s1)
              else if accept_u d < exp (- delta / T) then Inr (False, s1)
              else Inr (False, s)))"

text \<open>
  The inner \<^verbatim>\<open>for\<close> loop with its counter \<open>i\<close>, over the draws of one temperature level.
  An improving neighbour sets \<open>i\<close> to 0 before the increment. The result is \<open>None\<close> when
  the draws supplied do not suffice to finish the loop.
\<close>

fun sa_inner :: "int list \<Rightarrow> real \<Rightarrow> nat \<Rightarrow> draw list \<Rightarrow> sa_state \<Rightarrow> (error + sa_state) option" where
  "sa_inner coveredIdx T i [] s = (if i < 10 then None else Some (Inr s))"
| "sa_inner coveredIdx T i (d # ds) s =
     (if i < 10 then
        (case sa_iteration coveredIdx T d s of
           Inl e \<Rightarrow> Some (Inl e)
         | Inr (improved, s') \<Rightarrow> sa_inner coveredIdx T (Suc (if improved then 0 else i)) ds s')
      else Some (Inr s))"

text \<open>
  The outer \<^verbatim>\<open>while (T > 1e-3)\<close> loop; the argument lists the draws of each temperature
  level, and \<open>None\<close> again means that more levels are run than draws were supplied for.
\<close>

fun sa_outer ::
  "int list \<Rightarrow> real \<Rightarrow> real \<Rightarrow> draw list list \<Rightarrow> sa_state \<Rightarrow> (error + sa_state) option" where
  "sa_outer coveredIdx T alpha [] s = (if T > 1 / 1000 then None else Some (Inr s))"
| "sa_outer coveredIdx T alpha (ds # dss) s =
     (if T > 1 / 1000 then
        (case sa_inner coveredIdx T 0 ds s of
           None \<Rightarrow> None
         | Some (Inl e) \<Rightarrow> Some (Inl e)
         | Some (Inr s') \<Rightarrow> sa_outer coveredIdx (T * alpha) alpha dss s')
      else Some (Inr s))"

text \<open>
  \<^verbatim>\<open>simulatedAnnealing\<close>. After the loop the function calls
  \<^verbatim>\<open>calculateMetrics(bestDevices, bestServers, *state.metrics)\<close> and returns; it is the
  only write to \<^verbatim>\<open>state\<close>.
\<close>

definition simulatedAnnealing ::
  "Result \<Rightarrow> real \<Rightarrow> real \<Rightarrow> draw list list \<Rightarrow> (error + Result) option" where
  "simulatedAnnealing state T alpha dss =
     (case sa_outer (coveredDevicesIdx state) T alpha dss (sa_init state) of
        None \<Rightarrow> None
      | Some (Inl e) \<Rightarrow> Some (Inl e)
      | Some (Inr s) \<Rightarrow>
          (case calculateMetrics (bestDevices s) (bestServers s) (metrics state) of
             Inl e \<Rightarrow> Some (Inl e)
           | Inr m \<Rightarrow> Some (Inr (state\<lparr>metrics := m\<rparr>))))"

section \<open>Pre-calculation\<close>

text \<open>\<^verbatim>\<open>techParams\<close>: coverage radius in km and data rate in Mbps.\<close>

definition techParams :: "int \<Rightarrow> real \<times> real" where
  "techParams tech =
     (if tech = 1 then (20, 24 / 10000)
      else if tech = 2 then (10, 64 / 1000)
      else if tech = 3 then (5, 2)
      else if tech = 4 then (3, 100)
      else if tech = 5 then (6 / 10, 1000)
      else if tech = 6 then (32 / 100, 10000)
      else (- 1, - 1))"

text \<open>\<^verbatim>\<open>bandwidth\<close>: both loops start at index 1.\<close>

definition bandwidth :: "Device list \<Rightarrow> Server list \<Rightarrow> real \<Rightarrow> Device list \<times> Server list" where
  "bandwidth devices srvs dataRate =
     (fold (\<lambda>i ds. ds[i := (ds ! i)\<lparr>dev_bw := dataRate\<rparr>]) [1..<length devices] devices,
      fold (\<lambda>i ss. ss[i := (ss ! i)\<lparr>srv_bw := 100000\<rparr>]) [1..<length srvs] srvs)"

text \<open>
  \<^verbatim>\<open>utils::calculateDistance\<close> is floating-point trigonometry; the pre-calculation only
  compares and adds its results, so it is the parameter \<open>geo\<close> (latitude and longitude of
  two points to kilometres). The two instances of the template wrapper follow.
\<close>

definition calculateDistance_ds ::
  "(real \<Rightarrow> real \<Rightarrow> real \<Rightarrow> real \<Rightarrow> real) \<Rightarrow> Device \<Rightarrow> Server \<Rightarrow> real" where
  "calculateDistance_ds geo pointA pointB =
     geo (dev_lat pointA) (dev_lon pointA) (srv_lat pointB) (srv_lon pointB)"

definition calculateDistance_ss ::
  "(real \<Rightarrow> real \<Rightarrow> real \<Rightarrow> real \<Rightarrow> real) \<Rightarrow> Server \<Rightarrow> Server \<Rightarrow> real" where
  "calculateDistance_ss geo pointA pointB =
     geo (srv_lat pointA) (srv_lon pointA) (srv_lat pointB) (srv_lon pointB)"

text \<open>The first inner loop of \<^verbatim>\<open>findCovering\<close>: the edge servers in range of a device.\<close>

definition cover_edge ::
  "(real \<Rightarrow> real \<Rightarrow> real \<Rightarrow> real \<Rightarrow> real) \<Rightarrow> Server list \<Rightarrow> real \<Rightarrow> nat \<Rightarrow> Device \<Rightarrow> Device" where
  "cover_edge geo srvs coverageRadius j device =
     (if srv_type (srvs ! j) \<noteq> CHR ''E'' then device
      else if calculateDistance_ds geo device (srvs ! j) \<le> coverageRadius
      then device\<lparr>servers := servers device
                       @ [server_covering2 (int j) (calculateDistance_ds geo device (srvs ! j))],
                   covered := True\<rparr>
      else device)"

text \<open>The second inner loop: every cloud server becomes a candidate.\<close>

definition cover_cloud :: "Server list \<Rightarrow> nat \<Rightarrow> Device \<Rightarrow> Device" where
  "cover_cloud srvs j device =
     (if srv_type (srvs ! j) = CHR ''C''
      then device\<lparr>servers := servers device @ [server_covering1 (int j)]\<rparr>
      else device)"

text \<open>The body of the outer loop of \<^verbatim>\<open>findCovering\<close> at device index \<open>i\<close>.\<close>

definition cover_device ::
  "(real \<Rightarrow> real \<Rightarrow> real \<Rightarrow> real \<Rightarrow> real) \<Rightarrow> Server list \<Rightarrow> real \<Rightarrow> nat
     \<Rightarrow> Device list \<times> int list \<times> Metrics \<Rightarrow> Device list \<times> int list \<times> Metrics" where
  "cover_device geo srvs coverageRadius i acc =
     (case acc of
        (devices, coveredDeviceIds, m) \<Rightarrow>
          (let device = fold (cover_edge geo srvs coverageRadius) [1..<length srvs] (devices ! i)
           in if covered device
              then (devices[i := fold (cover_cloud srvs) [1..<length srvs] device],
                    coveredDeviceIds @ [dev_id device], m)
              else (devices[i := device], coveredDeviceIds,
                    m\<lparr>cost_of_non_coverage := cost_of_non_coverage m + cnd device\<rparr>)))"

text \<open>
  The device that this body leaves at index \<open>i\<close>, as a function of the device it found
  there; used to state what \<^verbatim>\<open>findCovering\<close> computes.
\<close>

definition cover_one ::
  "(real \<Rightarrow> real \<Rightarrow> real \<Rightarrow> real \<Rightarrow> real) \<Rightarrow> Server list \<Rightarrow> real \<Rightarrow> Device \<Rightarrow> Device" where
  "cover_one geo srvs coverageRadius device0 =
     (let device = fold (cover_edge geo srvs coverageRadius) [1..<length srvs] device0
      in if covered device then fold (cover_cloud srvs) [1..<length srvs] device else device)"

text \<open>\<^verbatim>\<open>findCovering\<close>.\<close>

definition findCovering ::
  "(real \<Rightarrow> real \<Rightarrow> real \<Rightarrow> real \<Rightarrow> real) \<Rightarrow> Device list \<Rightarrow> Server list \<Rightarrow> real \<Rightarrow> Metrics
     \<Rightarrow> Device list \<times> int list \<times> Metrics" where
  "findCovering geo devices srvs coverageRadius m =
     (case fold (cover_device geo srvs coverageRadius) [1..<length devices] (devices, [], m) of
        (devices', coveredDeviceIds, m') \<Rightarrow>
          (devices', coveredDeviceIds,
           m'\<lparr>devices_covered_count := int (length coveredDeviceIds)\<rparr>))"

text \<open>
  \<^verbatim>\<open>timeCalculation\<close>, innermost loops first: the nearest edge server among the
  candidates, then the timing fields of every candidate link.
\<close>

definition EARTH_RADIUS_KM :: real where
  "EARTH_RADIUS_KM = 63710088 / 10000"

definition SPEED_OF_LIGHT :: real where
  "SPEED_OF_LIGHT = 299792458 / 1000"

definition INTER_DC_LATENCY_MS :: real where
  "INTER_DC_LATENCY_MS = 11186 / 100"

fun closest_edge :: "Server list \<Rightarrow> server_covering list \<Rightarrow> int \<times> real \<Rightarrow> error + (int \<times> real)" where
  "closest_edge srvs [] closestEdge = Inr closestEdge"
| "closest_edge srvs (s_info # rest) closestEdge =
     (case at_idx srvs (cov_id s_info) of
        Inl e \<Rightarrow> Inl e
      | Inr s \<Rightarrow>
          closest_edge srvs rest
            (if srv_type s = CHR ''E'' \<and> distance s_info < snd closestEdge
             then (cov_id s_info, distance s_info) else closestEdge))"

fun time_links ::
  "(real \<Rightarrow> real \<Rightarrow> real \<Rightarrow> real \<Rightarrow> real) \<Rightarrow> Server list \<Rightarrow> Device \<Rightarrow> int \<times> real
     \<Rightarrow> server_covering list \<Rightarrow> error + server_covering list" where
  "time_links geo srvs device closestEdge [] = Inr []"
| "time_links geo srvs device closestEdge (c # rest) =
     (case at_idx srvs (cov_id c) of
        Inl e \<Rightarrow> Inl e
      | Inr s \<Rightarrow>
          (let c1 = c\<lparr>processingTime := s_d device * t_p s\<rparr>;
               transmission_time_ms = (s_d device / dev_bw device) * 1000
           in case (if srv_type s = CHR ''C'' then
                      (case at_idx srvs (fst closestEdge) of
                         Inl e \<Rightarrow> Inl e
                       | Inr edge \<Rightarrow>
                           Inr (c1\<lparr>id_routing := fst closestEdge,
                                   connectionTime := transmission_time_ms
                                     + ((snd closestEdge + calculateDistance_ss geo edge s)
                                         / SPEED_OF_LIGHT) * 1000
                                     + INTER_DC_LATENCY_MS\<rparr>))
                    else Inr (c1\<lparr>connectionTime := transmission_time_ms
                                     + (distance c1 / SPEED_OF_LIGHT) * 1000\<rparr>)) of
                Inl e \<Rightarrow> Inl e
              | Inr c2 \<Rightarrow>
                  (case time_links geo srvs device closestEdge rest of
                     Inl e \<Rightarrow> Inl e
                   | Inr rest' \<Rightarrow>
                       Inr (c2\<lparr>responseTime := connectionTime c2 + processingTime c2\<rparr>
                            # rest'))))"

fun time_devices ::
  "(real \<Rightarrow> real \<Rightarrow> real \<Rightarrow> real \<Rightarrow> real) \<Rightarrow> Server list \<Rightarrow> nat list \<Rightarrow> Device list
     \<Rightarrow> error + Device list" where
  "time_devices geo srvs [] devices = Inr devices"
| "time_devices geo srvs (i # rest) devices =
     (let device = devices ! i
      in if \<not> covered device then time_devices geo srvs rest devices
         else
           (case closest_edge srvs (servers device) (0, EARTH_RADIUS_KM) of
              Inl e \<Rightarrow> Inl e
            | Inr closestEdge \<Rightarrow>
                (case time_links geo srvs device closestEdge (servers device) of
                   Inl e \<Rightarrow> Inl e
                 | Inr links \<Rightarrow>
                     time_devices geo srvs rest (devices[i := device\<lparr>servers := links\<rparr>]))))"

definition timeCalculation ::
  "(real \<Rightarrow> real \<Rightarrow> real \<Rightarrow> real \<Rightarrow> real) \<Rightarrow> Device list \<Rightarrow> Server list \<Rightarrow> error + Device list" where
  "timeCalculation geo devices srvs = time_devices geo srvs [1..<length devices] devices"

text \<open>
  \<^verbatim>\<open>coverage\<close>. For an unknown technology it reports the error and returns the empty
  index list, leaving devices, servers and metrics as they were.
\<close>

definition coverage ::
  "(real \<Rightarrow> real \<Rightarrow> real \<Rightarrow> real \<Rightarrow> real) \<Rightarrow> Device list \<Rightarrow> Server list \<Rightarrow> Metrics
     \<Rightarrow> error + (Device list \<times> Server list \<times> int list \<times> Metrics)" where
  "coverage geo devices srvs m =
     (let techProps = techParams (in_tech m)
      in if fst techProps < 0 then Inr (devices, srvs, [], m)
         else
           (case bandwidth devices srvs (snd techProps) of
              (devices1, srvs1) \<Rightarrow>
                (case findCovering geo devices1 srvs1 (fst techProps) m of
                   (devices2, coveredDevices, m2) \<Rightarrow>
                     (case timeCalculation geo devices2 srvs1 of
                        Inl e \<Rightarrow> Inl e
                      | Inr devices3 \<Rightarrow> Inr (devices3, srvs1, coveredDevices, m2)))))"

text \<open>
  \<^verbatim>\<open>pre_calculation\<close>. \<^verbatim>\<open>loadDevices\<close> and \<^verbatim>\<open>loadServers\<close> read the data files; they are
  the parameters \<open>loadDevices\<close> and \<open>loadServers\<close>, the vectors they return for the
  requested counts (empty on failure). The result \<open>Inr None\<close> is \<^verbatim>\<open>std::nullopt\<close>.
\<close>

definition pre_calculation ::
  "(real \<Rightarrow> real \<Rightarrow> real \<Rightarrow> real \<Rightarrow> real) \<Rightarrow> (int \<Rightarrow> Device list) \<Rightarrow> (int \<Rightarrow> int \<Rightarrow> Server list)
     \<Rightarrow> string \<Rightarrow> string \<Rightarrow> int \<Rightarrow> int \<Rightarrow> int \<Rightarrow> int \<Rightarrow> error + Result option" where
  "pre_calculation geo loadDevices loadServers simulation algorithm numDevices numServersEC
       numServersCC tech =
     (if numDevices \<le> 0 \<or> numServersEC \<le> 0 \<or> numServersCC \<le> 0 then Inr None
      else
        (let devices = loadDevices numDevices;
             srvs = loadServers numServersEC numServersCC
         in if devices = [] \<or> srvs = [] then Inr None
            else
              (case coverage geo devices srvs
                      (mkMetrics simulation algorithm numDevices numServersEC numServersCC tech) of
                 Inl e \<Rightarrow> Inl e
               | Inr (devices', srvs', coveredDevicesIdx', m) \<Rightarrow>
                   Inr (Some \<lparr>st_devices = devices', st_servers = srvs',
                               coveredDevicesIdx = coveredDevicesIdx', metrics = m\<rparr>))))"

section \<open>Invariants and frames\<close>

text \<open>The capacity invariant of one server, in the five dimensions of \<open>canServe\<close>.\<close>

definition capacity_ok :: "Server \<Rightarrow> bool" where
  "capacity_ok s \<longleftrightarrow>
     pccD (srv_supply s) \<le> pcc_total s \<and>
     pcnD (srv_supply s) \<le> srv_pcn s \<and>
     memD (srv_supply s) \<le> srv_mem s \<and>
     stoD (srv_supply s) \<le> srv_sto s \<and>
     bwD (srv_supply s) \<le> srv_bw s"

text \<open>
  A server as the loader builds it: nothing committed yet, and capacities that are not
  negative.
\<close>

definition fresh_server :: "Server \<Rightarrow> bool" where
  "fresh_server s \<longleftrightarrow>
     srv_supply s = server_supply0 \<and> 0 \<le> pcc_total s \<and> 0 \<le> srv_pcn s \<and>
     0 \<le> srv_mem s \<and> 0 \<le> srv_sto s \<and> 0 \<le> srv_bw s"

text \<open>A device whose five resource demands are not negative.\<close>

definition nonneg_demand :: "Device \<Rightarrow> bool" where
  "nonneg_demand device \<longleftrightarrow>
     0 \<le> dev_pcc device \<and> 0 \<le> dev_pcn device \<and> 0 \<le> dev_mem device \<and>
     0 \<le> dev_sto device \<and> 0 \<le> dev_bw device"

text \<open>The activation invariant of one server.\<close>

definition active_ok :: "Server \<Rightarrow> bool" where
  "active_ok s \<longleftrightarrow> (srv_on s \<longleftrightarrow> devices_served (srv_supply s) \<noteq> {})"

text \<open>
  Frames. Two devices that differ at most in \<open>served\<close> and \<open>server\<close>; two devices that
  differ at most in these and in the order of the candidate list; two servers that
  differ at most in the active flag and the demand accumulator.
\<close>

definition dev_frame :: "Device \<Rightarrow> Device \<Rightarrow> bool" where
  "dev_frame d d' \<longleftrightarrow> d' = d\<lparr>served := served d', server := server d'\<rparr>"

definition dev_frame_perm :: "Device \<Rightarrow> Device \<Rightarrow> bool" where
  "dev_frame_perm d d' \<longleftrightarrow>
     d'\<lparr>servers := servers d\<rparr> = d\<lparr>served := served d', server := server d'\<rparr> \<and>
     mset (servers d') = mset (servers d)"

definition srv_frame :: "Server \<Rightarrow> Server \<Rightarrow> bool" where
  "srv_frame s s' \<longleftrightarrow> s' = s\<lparr>srv_on := srv_on s', srv_supply := srv_supply s'\<rparr>"



section \<open>A small run state\<close>

text \<open>
  One device at index 1 with a single candidate link to the edge server at index 1,
  behind the placeholders at index 0: \<open>ex_pre\<close> is the state as pre-calculation leaves
  it, \<open>ex_state\<close> the same state after a run of the random heuristic that rejected the
  device. \<open>ex_served\<close> and \<open>ex_loaded\<close> are the device and the server once the device
  is committed.
\<close>

definition ex_link :: server_covering where
  "ex_link = (server_covering2 1 0)\<lparr>responseTime := 3\<rparr>"

definition ex_device :: Device where
  "ex_device = (mkDevice 1 0 0 5 1 1 1 1 1 1)\<lparr>dev_bw := 1, covered := True,
     servers := [ex_link]\<rparr>"

definition ex_server :: Server where
  "ex_server = (mkServer 1 0 0 1 2 4 8 16 1 CHR ''E'')\<lparr>srv_bw := 100000\<rparr>"

definition ex_pre :: Result where
  "ex_pre = \<lparr>st_devices = [Device0, ex_device], st_servers = [Server0, ex_server],
      coveredDevicesIdx = [1],
      metrics = (mkMetrics ''MetaHeuristic'' ''SA'' 1 1 1 4)\<lparr>devices_covered_count := 1\<rparr>\<rparr>"

definition ex_state :: Result where
  "ex_state = ex_pre\<lparr>metrics :=
     (metrics ex_pre)\<lparr>cost_of_non_service := 5, total_cost := 5\<rparr>\<rparr>"

definition ex_served :: Device where
  "ex_served = ex_device\<lparr>served := True, server := ex_link\<rparr>"

definition ex_loaded :: Server where
  "ex_loaded = ex_server\<lparr>srv_on := True,
     srv_supply := \<lparr>pcnD = 1, cndD = 5, pccD = 1, memD = 1, stoD = 1, bwD = 1,
       devices_served = {1}\<rparr>\<rparr>"

definition ex_metrics_served :: Metrics where
  "ex_metrics_served = (metrics ex_pre)\<lparr>devices_served_count := 1,
     devices_served_ec_count := 1, servers_used_count := 1, servers_used_ec_count := 1,
     cost_of_servers_used := 1, total_cost := 1, average_response_time := 3\<rparr>"

definition ex_committed :: Result where
  "ex_committed = ex_pre\<lparr>st_devices := [Device0, ex_served],
     st_servers := [Server0, ex_loaded], metrics := ex_metrics_served\<rparr>"

text \<open>The draws of one attempt, and the annealing state after the device has moved.\<close>

definition ex_draw :: draw where
  "ex_draw = \<lparr>pick_device = 0, shuffle_raw = [], accept_u = 0\<rparr>"

definition ex_sa_moved :: sa_state where
  "ex_sa_moved = \<lparr>bestDevices = [Device0, ex_served], currentDevices = [Device0, ex_served],
     bestServers = [Server0, ex_loaded], currentServers = [Server0, ex_loaded],
     bestCNS = 0, currentCNS = 0, bestCSU = 1, currentCSU = 1, bestCost = 1, currentCost = 1\<rparr>"

text \<open>
  Three devices behind the placeholder, of non-service cost 5, 5 and 7: devices 1 and
  2 tie.
\<close>

definition ex_tie_devices :: "Device list" where
  "ex_tie_devices = [Device0, ex_device, ex_device\<lparr>dev_id := 2\<rparr>,
     ex_device\<lparr>dev_id := 3, cnd := 7\<rparr>]"

text \<open>
  Loaded data for the coverage step: a device 2.9 km and a device 3.1 km from the edge
  server at index 1, and a cloud server at index 2. The distance function \<open>ex_geo\<close>
  reads the distance off the latitude of the first point.
\<close>

definition ex_geo :: "real \<Rightarrow> real \<Rightarrow> real \<Rightarrow> real \<Rightarrow> real" where
  "ex_geo lat1 lon1 lat2 lon2 = lat1"

definition ex_near :: Device where
  "ex_near = mkDevice 1 (29 / 10) 0 5 1 1 1 1 1 1"

definition ex_far :: Device where
  "ex_far = mkDevice 2 (31 / 10) 0 7 1 1 1 1 1 1"

definition ex_cloud :: Server where
  "ex_cloud = mkServer 2 0 0 1 2 4 8 16 1 CHR ''C''"

definition ex_loaded_devices :: "Device list" where
  "ex_loaded_devices = [Device0, ex_near, ex_far]"

definition ex_loaded_servers :: "Server list" where
  "ex_loaded_servers = [Server0, mkServer 1 0 0 1 2 4 8 16 1 CHR ''E'', ex_cloud]"

text \<open>The state that pre-calculation builds from this data under technology 4.\<close>

definition ex_pre_calculated :: Result where
  "ex_pre_calculated =
     the (projr (pre_calculation ex_geo (\<lambda>n. ex_loaded_devices) (\<lambda>ec cc. ex_loaded_servers)
                   ''Heuristic'' ''Random'' 2 1 1 4))"

text \<open>A pre-calculated state whose only device lies outside every coverage radius.\<close>

definition ex_uncovered :: Result where
  "ex_uncovered = \<lparr>st_devices = [Device0, (mkDevice 1 0 0 5 1 1 1 1 1 1)\<lparr>dev_bw := 1\<rparr>],
      st_servers = [Server0, ex_server], coveredDevicesIdx = [],
      metrics = (mkMetrics ''MetaHeuristic'' ''SA'' 1 1 1 4)\<lparr>cost_of_non_coverage := 5\<rparr>\<rparr>"

text \<open>
  A device with two candidate links, the slower one first, and the two edge servers
  they point to.
\<close>

definition ex_slow :: server_covering where
  "ex_slow = (server_covering2 1 0)\<lparr>responseTime := 2\<rparr>"

definition ex_fast :: server_covering where
  "ex_fast = (server_covering2 2 0)\<lparr>responseTime := 1\<rparr>"

definition ex_two_links :: Result where
  "ex_two_links = \<lparr>st_devices = [Device0, ex_device\<lparr>servers := [ex_slow, ex_fast]\<rparr>],
      st_servers = [Server0, ex_server, ex_server\<lparr>srv_id := 2\<rparr>],
      coveredDevicesIdx = [1],
      metrics = (mkMetrics ''Heuristic'' ''Greedy_AscAsc'' 1 2 1 4)\<lparr>devices_covered_count := 1\<rparr>\<rparr>"

text \<open>
  Three covered devices that compete for the edge server at index 1, which has two
  cores: devices 1 and 2 have non-service cost 5, device 3 has 7, and each needs one
  core.
\<close>

definition ex_small :: Server where
  "ex_small = (mkServer 1 0 0 1 2 2 8 16 1 CHR ''E'')\<lparr>srv_bw := 100000\<rparr>"

definition ex_tie :: Result where
  "ex_tie = \<lparr>st_devices = ex_tie_devices, st_servers = [Server0, ex_small],
      coveredDevicesIdx = [1, 2, 3],
      metrics = (mkMetrics ''Heuristic'' ''Greedy_AscAsc'' 3 1 1 4)\<lparr>devices_covered_count := 3\<rparr>\<rparr>"

text \<open>
  The state \<open>ex_pre\<close> with a device that needs nine cores; the only candidate server
  has four.
\<close>

definition ex_big :: Device where
  "ex_big = ex_device\<lparr>dev_pcn := 9\<rparr>"

definition ex_big_state :: Result where
  "ex_big_state = ex_pre\<lparr>st_devices := [Device0, ex_big]\<rparr>"

text \<open>
  Loaded data with signs the loader accepts: an edge server whose memory capacity is
  \<open>-1\<close>; and two devices at the site of two edge servers of memory capacity 8, the
  first with memory demand \<open>-5\<close>, the second with memory demand 12.
\<close>

definition ex_negative_servers :: "Server list" where
  "ex_negative_servers = [Server0, mkServer 1 0 0 1 2 4 (- 1) 16 1 CHR ''E'', ex_cloud]"

definition ex_refund_devices :: "Device list" where
  "ex_refund_devices =
     [Device0, mkDevice 1 0 0 5 1 1 (- 5) 1 1 1, mkDevice 2 0 0 6 1 1 12 1 1 1]"

definition ex_refund_servers :: "Server list" where
  "ex_refund_servers =
     [Server0, mkServer 1 0 0 1 2 4 8 16 1 CHR ''E'', mkServer 2 0 0 1 2 4 8 16 2 CHR ''E'',
      mkServer 3 0 0 1 2 4 8 16 1 CHR ''C'']"

section \<open>Auxiliary facts\<close>

subsection \<open>Vector access\<close>

lemma at_idx_Inr: "at_idx xs i = Inr x \<Longrightarrow> 0 \<le> i \<and> nat i < length xs \<and> x = xs ! nat i"
  by (auto simp: at_idx_def split: if_splits)

lemma at_idx_in_range: "0 \<le> i \<Longrightarrow> i < int (length xs) \<Longrightarrow> at_idx xs i = Inr (xs ! nat i)"
  by (simp add: at_idx_def)

lemma list_all_update: "list_all P xs \<Longrightarrow> P y \<Longrightarrow> list_all P (xs[i := y])"
  by (metis list_all_length length_list_update nth_list_update_eq nth_list_update_neq)

lemma list_all_nth: "list_all P xs \<Longrightarrow> i < length xs \<Longrightarrow> P (xs ! i)"
  by (simp add: list_all_length)

lemma list_all2_update_right:
  "list_all2 R xs ys \<Longrightarrow> i < length ys \<Longrightarrow> R (xs ! i) y \<Longrightarrow> list_all2 R xs (ys[i := y])"
  by (auto simp: list_all2_conv_all_nth nth_list_update)

subsection \<open>Effects of commit and release\<close>

lemma addServed_srv_frame: "addServed s d = (ok, s', d') \<Longrightarrow> srv_frame s s'"
  by (auto simp: addServed_def srv_frame_def split: if_splits)

lemma addServed_dev_frame: "addServed s d = (ok, s', d') \<Longrightarrow> d' = d\<lparr>served := served d'\<rparr>"
  by (auto simp: addServed_def split: if_splits)

lemma rmvServed_srv_frame: "rmvServed s d = (ok, s', d') \<Longrightarrow> srv_frame s s'"
  by (auto simp: rmvServed_def srv_frame_def Let_def split: if_splits)

lemma rmvServed_dev_frame: "rmvServed s d = (ok, s', d') \<Longrightarrow> d' = d\<lparr>served := served d'\<rparr>"
  by (auto simp: rmvServed_def Let_def split: if_splits)

lemma addServed_capacity_ok:
  "capacity_ok s \<Longrightarrow> canServe s d \<Longrightarrow> addServed s d = (ok, s', d') \<Longrightarrow> capacity_ok s'"
  by (auto simp: addServed_def capacity_ok_def canServe_def split: if_splits)

lemma rmvServed_capacity_ok:
  "capacity_ok s \<Longrightarrow> nonneg_demand d \<Longrightarrow> rmvServed s d = (ok, s', d') \<Longrightarrow> capacity_ok s'"
  by (auto simp: rmvServed_def capacity_ok_def nonneg_demand_def Let_def split: if_splits)

lemma addServed_active_ok: "active_ok s \<Longrightarrow> addServed s d = (ok, s', d') \<Longrightarrow> active_ok s'"
  by (auto simp: addServed_def active_ok_def split: if_splits)

lemma rmvServed_active_ok: "active_ok s \<Longrightarrow> rmvServed s d = (ok, s', d') \<Longrightarrow> active_ok s'"
  by (auto simp: rmvServed_def active_ok_def Let_def split: if_splits)

lemma dev_frame_refl: "dev_frame d d"
  by (simp add: dev_frame_def)

lemma srv_frame_refl: "srv_frame s s"
  by (simp add: srv_frame_def)

lemma dev_frame_trans: "dev_frame a b \<Longrightarrow> dev_frame b c \<Longrightarrow> dev_frame a c"
  by (cases a, cases b, cases c) (auto simp: dev_frame_def)

lemma srv_frame_trans: "srv_frame a b \<Longrightarrow> srv_frame b c \<Longrightarrow> srv_frame a c"
  by (cases a, cases b, cases c) (auto simp: srv_frame_def)

lemma dev_frame_perm_refl: "dev_frame_perm d d"
  by (simp add: dev_frame_perm_def)

lemma dev_frame_perm_trans: "dev_frame_perm a b \<Longrightarrow> dev_frame_perm b c \<Longrightarrow> dev_frame_perm a c"
  by (cases a, cases b, cases c) (auto simp: dev_frame_perm_def)

lemma dev_frame_nonneg: "dev_frame d d' \<Longrightarrow> nonneg_demand d \<Longrightarrow> nonneg_demand d'"
  by (cases d, cases d') (auto simp: dev_frame_def nonneg_demand_def)


subsection \<open>Random heuristic\<close>

lemma random_loop_Cons_cases:
  assumes "random_loop picks k (d_idx # rest) devs srvs = Inr r"
  shows "random_loop picks (Suc k) rest devs srvs = Inr r \<or>
     (\<exists>device pot s ok s' device'.
        at_idx devs d_idx = Inr device \<and> at_idx srvs (cov_id pot) = Inr s \<and>
        canServe s device \<and> addServed s device = (ok, s', device') \<and>
        random_loop picks (Suc k) rest (devs[nat d_idx := device'\<lparr>server := pot\<rparr>])
          (srvs[nat (cov_id pot) := s']) = Inr r)"
  using assms
  apply (simp split: sum.splits if_splits prod.splits)
  apply blast
  done


lemma devs_frame_trans:
  "list_all2 dev_frame a b \<Longrightarrow> list_all2 dev_frame b c \<Longrightarrow> list_all2 dev_frame a c"
  by (rule list_all2_trans[where ?P1.0=dev_frame and ?P2.0=dev_frame]) (rule dev_frame_trans)

lemma srvs_frame_trans:
  "list_all2 srv_frame a b \<Longrightarrow> list_all2 srv_frame b c \<Longrightarrow> list_all2 srv_frame a c"
  by (rule list_all2_trans[where ?P1.0=srv_frame and ?P2.0=srv_frame]) (rule srv_frame_trans)

lemma commit_srvs_pres:
  assumes "list_all P srvs" and "at_idx srvs i = Inr s" and "canServe s device"
    and "addServed s device = (ok, s', device')"
    and "\<And>s d ok s' d'. P s \<Longrightarrow> canServe s d \<Longrightarrow> addServed s d = (ok, s', d') \<Longrightarrow> P s'"
  shows "list_all P (srvs[nat i := s'])"
proof -
  have "s = srvs ! nat i" "nat i < length srvs" using at_idx_Inr[OF assms(2)] by simp_all
  then have "P s" using assms(1) by (simp add: list_all_nth)
  then have "P s'" using assms(3,4,5) by blast
  then show ?thesis using assms(1) by (rule list_all_update[rotated])
qed

lemma commit_srvs_frame:
  assumes "at_idx srvs i = Inr s" and "addServed s device = (ok, s', device')"
  shows "list_all2 srv_frame srvs (srvs[nat i := s'])"
proof (rule list_all2_update_right)
  show "list_all2 srv_frame srvs srvs" by (simp add: list_all2_refl srv_frame_refl)
  show "nat i < length srvs" using at_idx_Inr[OF assms(1)] by simp
  show "srv_frame (srvs ! nat i) s'"
    using addServed_srv_frame[OF assms(2)] at_idx_Inr[OF assms(1)] by simp
qed

lemma commit_devs_frame:
  assumes "at_idx devs d_idx = Inr device" and "addServed s device = (ok, s', device')"
  shows "list_all2 dev_frame devs (devs[nat d_idx := device'\<lparr>server := pot\<rparr>])"
proof (rule list_all2_update_right)
  show "list_all2 dev_frame devs devs" by (simp add: list_all2_refl dev_frame_refl)
  show "nat d_idx < length devs" using at_idx_Inr[OF assms(1)] by simp
  have "device = devs ! nat d_idx" using at_idx_Inr[OF assms(1)] by simp
  moreover have "device' = device\<lparr>served := served device'\<rparr>"
    using addServed_dev_frame[OF assms(2)] .
  ultimately show "dev_frame (devs ! nat d_idx) (device'\<lparr>server := pot\<rparr>)"
    by (cases device, cases device') (auto simp: dev_frame_def)
qed

lemma random_loop_pres:
  assumes A: "\<And>s d ok s' d'. P s \<Longrightarrow> canServe s d \<Longrightarrow> addServed s d = (ok, s', d') \<Longrightarrow> P s'"
  shows "list_all P srvs \<Longrightarrow> random_loop picks k idxs devs srvs = Inr (devs', srvs')
           \<Longrightarrow> list_all P srvs'"
proof (induction idxs arbitrary: k devs srvs)
  case Nil
  then show ?case by simp
next
  case (Cons d_idx rest)
  from random_loop_Cons_cases[OF Cons.prems(2)] show ?case
  proof (elim disjE exE conjE)
    assume "random_loop picks (Suc k) rest devs srvs = Inr (devs', srvs')"
    with Cons.prems(1) show ?thesis by (rule Cons.IH)
  next
    fix device pot s ok s' device'
    assume h: "at_idx srvs (cov_id pot) = Inr s" "canServe s device"
      "addServed s device = (ok, s', device')"
      and rec: "random_loop picks (Suc k) rest (devs[nat d_idx := device'\<lparr>server := pot\<rparr>])
          (srvs[nat (cov_id pot) := s']) = Inr (devs', srvs')"
    have "list_all P (srvs[nat (cov_id pot) := s'])"
      using commit_srvs_pres[OF Cons.prems(1) h A] .
    then show ?thesis using rec by (rule Cons.IH)
  qed
qed

lemma random_loop_frame:
  "random_loop picks k idxs devs srvs = Inr (devs', srvs')
     \<Longrightarrow> list_all2 dev_frame devs devs' \<and> list_all2 srv_frame srvs srvs'"
proof (induction idxs arbitrary: k devs srvs)
  case Nil
  then show ?case by (simp add: list_all2_refl dev_frame_refl srv_frame_refl)
next
  case (Cons d_idx rest)
  from random_loop_Cons_cases[OF Cons.prems] show ?case
  proof (elim disjE exE conjE)
    assume "random_loop picks (Suc k) rest devs srvs = Inr (devs', srvs')"
    then show ?thesis by (rule Cons.IH)
  next
    fix device pot s ok s' device'
    assume dev: "at_idx devs d_idx = Inr device" and srv: "at_idx srvs (cov_id pot) = Inr s"
      and add: "addServed s device = (ok, s', device')"
      and rec: "random_loop picks (Suc k) rest (devs[nat d_idx := device'\<lparr>server := pot\<rparr>])
          (srvs[nat (cov_id pot) := s']) = Inr (devs', srvs')"
    from Cons.IH[OF rec] commit_devs_frame[OF dev add, of pot] commit_srvs_frame[OF srv add]
    show ?thesis
      by (blast intro: devs_frame_trans srvs_frame_trans)
  qed
qed


subsection \<open>Sorting keeps the elements\<close>

lemma mset_insert_by: "mset (insert_by lt x xs) = add_mset x (mset xs)"
  by (induction xs) auto

lemma mset_std_sort: "mset (std_sort lt xs) = mset xs"
  unfolding std_sort_def by (induction xs) (auto simp: mset_insert_by)


subsection \<open>Greedy heuristic\<close>

lemma greedy_commit_cases:
  "greedy_commit ps device srvs = Inr (device', srvs') \<Longrightarrow>
     (device' = device \<and> srvs' = srvs) \<or>
     (\<exists>pot s ok s1 d1. pot \<in> set ps \<and> at_idx srvs (cov_id pot) = Inr s \<and> canServe s device \<and>
        addServed s device = (ok, s1, d1) \<and> device' = d1\<lparr>server := pot\<rparr> \<and>
        srvs' = srvs[nat (cov_id pot) := s1])"
proof (induction ps)
  case Nil
  then show ?case by simp
next
  case (Cons p ps)
  show ?case
  proof (cases "greedy_commit ps device srvs = Inr (device', srvs')")
    case True
    from Cons.IH[OF True] show ?thesis by auto
  next
    case False
    with Cons.prems show ?thesis
      apply (simp split: sum.splits if_splits prod.splits)
      apply blast
      done
  qed
qed

lemma greedy_loop_Cons_cases:
  assumes "greedy_loop asc (d_idx # rest) devs srvs = Inr r"
  shows "\<exists>device0 device' srvs1.
     at_idx devs d_idx = Inr device0 \<and>
     greedy_commit (std_sort (responseTime_before asc) (servers device0))
       (device0\<lparr>servers := std_sort (responseTime_before asc) (servers device0)\<rparr>) srvs
       = Inr (device', srvs1) \<and>
     greedy_loop asc rest (devs[nat d_idx := device']) srvs1 = Inr r"
  using assms by (simp add: Let_def split: sum.splits prod.splits)

lemma greedy_commit_pres:
  assumes A: "\<And>s d ok s' d'. P s \<Longrightarrow> canServe s d \<Longrightarrow> addServed s d = (ok, s', d') \<Longrightarrow> P s'"
    and "list_all P srvs" and "greedy_commit ps device srvs = Inr (device', srvs')"
  shows "list_all P srvs'"
  using greedy_commit_cases[OF assms(3)] assms(2)
  by (auto intro: commit_srvs_pres[OF _ _ _ _ A])

lemma greedy_commit_frame:
  assumes "greedy_commit ps device srvs = Inr (device', srvs')"
  shows "device' = device\<lparr>served := served device', server := server device'\<rparr> \<and>
         list_all2 srv_frame srvs srvs'"
  using greedy_commit_cases[OF assms]
proof (elim disjE exE conjE)
  assume "device' = device" "srvs' = srvs"
  then show ?thesis by (simp add: list_all2_refl srv_frame_refl)
next
  fix pot s ok s1 d1
  assume srv: "at_idx srvs (cov_id pot) = Inr s" and add: "addServed s device = (ok, s1, d1)"
    and eq: "device' = d1\<lparr>server := pot\<rparr>" "srvs' = srvs[nat (cov_id pot) := s1]"
  have "d1 = device\<lparr>served := served d1\<rparr>" using addServed_dev_frame[OF add] .
  then have "device' = device\<lparr>served := served device', server := server device'\<rparr>"
    using eq(1) by (cases device, cases d1) auto
  then show ?thesis using commit_srvs_frame[OF srv add] eq(2) by simp
qed

lemma greedy_loop_pres:
  assumes A: "\<And>s d ok s' d'. P s \<Longrightarrow> canServe s d \<Longrightarrow> addServed s d = (ok, s', d') \<Longrightarrow> P s'"
  shows "list_all P srvs \<Longrightarrow> greedy_loop asc idxs devs srvs = Inr (devs', srvs')
           \<Longrightarrow> list_all P srvs'"
proof (induction idxs arbitrary: devs srvs)
  case Nil
  then show ?case by simp
next
  case (Cons d_idx rest)
  from greedy_loop_Cons_cases[OF Cons.prems(2)] obtain device0 device' srvs1 where
    gc: "greedy_commit (std_sort (responseTime_before asc) (servers device0))
       (device0\<lparr>servers := std_sort (responseTime_before asc) (servers device0)\<rparr>) srvs
       = Inr (device', srvs1)"
    and rec: "greedy_loop asc rest (devs[nat d_idx := device']) srvs1 = Inr (devs', srvs')"
    by blast
  have "list_all P srvs1" using greedy_commit_pres[OF A Cons.prems(1) gc] .
  then show ?case using rec by (rule Cons.IH)
qed

lemma devs_frame_perm_trans:
  "list_all2 dev_frame_perm a b \<Longrightarrow> list_all2 dev_frame_perm b c \<Longrightarrow> list_all2 dev_frame_perm a c"
  by (rule list_all2_trans[where ?P1.0=dev_frame_perm and ?P2.0=dev_frame_perm])
     (rule dev_frame_perm_trans)

lemma greedy_loop_frame:
  "greedy_loop asc idxs devs srvs = Inr (devs', srvs')
     \<Longrightarrow> list_all2 dev_frame_perm devs devs' \<and> list_all2 srv_frame srvs srvs'"
proof (induction idxs arbitrary: devs srvs)
  case Nil
  then show ?case by (simp add: list_all2_refl dev_frame_perm_refl srv_frame_refl)
next
  case (Cons d_idx rest)
  from greedy_loop_Cons_cases[OF Cons.prems] obtain device0 device' srvs1 where
    dev: "at_idx devs d_idx = Inr device0" and
    gc: "greedy_commit (std_sort (responseTime_before asc) (servers device0))
       (device0\<lparr>servers := std_sort (responseTime_before asc) (servers device0)\<rparr>) srvs
       = Inr (device', srvs1)"
    and rec: "greedy_loop asc rest (devs[nat d_idx := device']) srvs1 = Inr (devs', srvs')"
    by blast
  from greedy_commit_frame[OF gc] have
    d': "device' = device0\<lparr>servers := std_sort (responseTime_before asc) (servers device0),
           served := served device', server := server device'\<rparr>"
    and s1: "list_all2 srv_frame srvs srvs1" by simp_all
  have "dev_frame_perm device0 device'"
    unfolding dev_frame_perm_def
    by (subst (1 2) d', cases device0) (simp add: mset_std_sort)
  then have d1: "list_all2 dev_frame_perm devs (devs[nat d_idx := device'])"
    using at_idx_Inr[OF dev]
    by (intro list_all2_update_right) (simp_all add: list_all2_refl dev_frame_perm_refl)
  from Cons.IH[OF rec] d1 s1 show ?case
    by (blast intro: devs_frame_perm_trans srvs_frame_trans)
qed


subsection \<open>Neighbour step\<close>

lemma neighbor_loop_cases:
  "neighbor_loop devs srvs d_idx device cns csu tries idxs = Inr r \<Longrightarrow>
     r = (devs, srvs, cns, csu) \<or>
     (\<exists>i pot old_server new_server.
        i \<in> set idxs \<and> at_idx (servers device) i = Inr pot \<and>
        cov_id pot \<noteq> cov_id (server device) \<and>
        at_idx srvs (cov_id (server device)) = Inr old_server \<and>
        at_idx srvs (cov_id pot) = Inr new_server \<and> canServe new_server device \<and>
        r = neighbor_move devs srvs d_idx device pot cns csu)"
proof (induction idxs arbitrary: tries)
  case Nil
  then show ?case by simp
next
  case (Cons i rest)
  show ?case
  proof (cases "neighbor_loop devs srvs d_idx device cns csu (Suc tries) rest = Inr r")
    case True
    from Cons.IH[OF True] show ?thesis by auto
  next
    case False
    with Cons.prems show ?thesis
      apply (simp split: sum.splits if_splits)
      apply blast
      done
  qed
qed

lemma canServe_served [simp]: "canServe s (d\<lparr>served := b\<rparr>) = canServe s d"
  by (simp add: canServe_def)

lemma rmvServed_device: "rmvServed s d = (ok, s', d') \<Longrightarrow> d' = d \<or> d' = d\<lparr>served := False\<rparr>"
  by (auto simp: rmvServed_def Let_def split: if_splits)

lemma addServed_device: "addServed s d = (ok, s', d') \<Longrightarrow> d' = d \<or> d' = d\<lparr>served := True\<rparr>"
  by (auto simp: addServed_def split: if_splits)

text \<open>The move in the two cases of the \<open>served\<close> flag.\<close>

lemma neighbor_move_served:
  assumes "served device" and "rmvServed (srvs ! nat (cov_id (server device))) device = (ok, old', device')"
    and "addServed (srvs[nat (cov_id (server device)) := old'] ! nat (cov_id pot)) device' = (ok2, new', device3)"
  shows "fst (neighbor_move devs srvs d_idx device pot cns csu) = devs[nat d_idx := device3\<lparr>server := pot\<rparr>]"
    and "fst (snd (neighbor_move devs srvs d_idx device pot cns csu))
           = srvs[nat (cov_id (server device)) := old', nat (cov_id pot) := new']"
  using assms by (simp_all add: neighbor_move_def Let_def)

lemma neighbor_move_unserved:
  assumes "\<not> served device"
    and "addServed (srvs ! nat (cov_id pot)) device = (ok2, new', device3)"
  shows "fst (neighbor_move devs srvs d_idx device pot cns csu) = devs[nat d_idx := device3\<lparr>server := pot\<rparr>]"
    and "fst (snd (neighbor_move devs srvs d_idx device pot cns csu)) = srvs[nat (cov_id pot) := new']"
  using assms by (simp_all add: neighbor_move_def Let_def)

lemma neighbor_move_pres:
  assumes A: "\<And>s d ok s' d'. P s \<Longrightarrow> canServe s d \<Longrightarrow> addServed s d = (ok, s', d') \<Longrightarrow> P s'"
    and R: "\<And>s ok s' d'. P s \<Longrightarrow> rmvServed s device = (ok, s', d') \<Longrightarrow> P s'"
    and all: "list_all P srvs"
    and old: "at_idx srvs (cov_id (server device)) = Inr old_server"
    and new: "at_idx srvs (cov_id pot) = Inr new_server"
    and can: "canServe new_server device"
    and ne: "cov_id pot \<noteq> cov_id (server device)"
  shows "list_all P (fst (snd (neighbor_move devs srvs d_idx device pot cns csu)))"
proof -
  let ?oid = "nat (cov_id (server device))" and ?nid = "nat (cov_id pot)"
  have o: "?oid < length srvs" "old_server = srvs ! ?oid" "0 \<le> cov_id (server device)"
    using at_idx_Inr[OF old] by simp_all
  have n: "?nid < length srvs" "new_server = srvs ! ?nid" "0 \<le> cov_id pot"
    using at_idx_Inr[OF new] by simp_all
  have neq: "?oid \<noteq> ?nid" using ne o(3) n(3) by simp
  show ?thesis
  proof (cases "served device")
    case True
    obtain ok old' device' where rm: "rmvServed (srvs ! ?oid) device = (ok, old', device')"
      by (cases "rmvServed (srvs ! ?oid) device") auto
    obtain ok2 new' device3 where
      ad: "addServed (srvs[?oid := old'] ! ?nid) device' = (ok2, new', device3)"
      by (cases "addServed (srvs[?oid := old'] ! ?nid) device'") auto
    have "P (srvs ! ?oid)" using all o(1) by (simp add: list_all_nth)
    then have "P old'" using R rm by blast
    then have all1: "list_all P (srvs[?oid := old'])" using all by (simp add: list_all_update)
    have nth: "srvs[?oid := old'] ! ?nid = srvs ! ?nid" using neq by simp
    have "canServe (srvs ! ?nid) device'"
      using rmvServed_device[OF rm] can n(2) by auto
    moreover have "P (srvs ! ?nid)" using all n(1) by (simp add: list_all_nth)
    ultimately have "P new'" using A ad nth by metis
    then have "list_all P (srvs[?oid := old', ?nid := new'])"
      using all1 by (simp add: list_all_update)
    then show ?thesis using neighbor_move_served(2)[OF True rm ad] by simp
  next
    case False
    obtain ok2 new' device3 where ad: "addServed (srvs ! ?nid) device = (ok2, new', device3)"
      by (cases "addServed (srvs ! ?nid) device") auto
    have "P (srvs ! ?nid)" using all n(1) by (simp add: list_all_nth)
    then have "P new'" using A ad can n(2) by metis
    then have "list_all P (srvs[?nid := new'])" using all by (simp add: list_all_update)
    then show ?thesis using neighbor_move_unserved(2)[OF False ad] by simp
  qed
qed

lemma neighbor_move_frame:
  assumes dev: "at_idx devs d_idx = Inr device"
    and old: "at_idx srvs (cov_id (server device)) = Inr old_server"
    and new: "at_idx srvs (cov_id pot) = Inr new_server"
  shows "list_all2 dev_frame devs (fst (neighbor_move devs srvs d_idx device pot cns csu)) \<and>
         list_all2 srv_frame srvs (fst (snd (neighbor_move devs srvs d_idx device pot cns csu)))"
proof -
  let ?oid = "nat (cov_id (server device))" and ?nid = "nat (cov_id pot)"
  have d: "nat d_idx < length devs" "device = devs ! nat d_idx" using at_idx_Inr[OF dev] by simp_all
  have o: "?oid < length srvs" using at_idx_Inr[OF old] by simp
  have n: "?nid < length srvs" using at_idx_Inr[OF new] by simp
  have upd: "\<And>d3. d3 = device\<lparr>served := served d3\<rparr>
      \<Longrightarrow> list_all2 dev_frame devs (devs[nat d_idx := d3\<lparr>server := pot\<rparr>])"
  proof -
    fix d3 assume e: "d3 = device\<lparr>served := served d3\<rparr>"
    have "dev_frame (devs ! nat d_idx) (d3\<lparr>server := pot\<rparr>)"
      using d(2) e by (cases device, cases d3) (auto simp: dev_frame_def)
    then show "list_all2 dev_frame devs (devs[nat d_idx := d3\<lparr>server := pot\<rparr>])"
      using d(1) by (intro list_all2_update_right) (simp_all add: list_all2_refl dev_frame_refl)
  qed
  show ?thesis
  proof (cases "served device")
    case True
    obtain ok old' device' where rm: "rmvServed (srvs ! ?oid) device = (ok, old', device')"
      by (cases "rmvServed (srvs ! ?oid) device") auto
    obtain ok2 new' device3 where
      ad: "addServed (srvs[?oid := old'] ! ?nid) device' = (ok2, new', device3)"
      by (cases "addServed (srvs[?oid := old'] ! ?nid) device'") auto
    have "device3 = device\<lparr>served := served device3\<rparr>"
      using rmvServed_device[OF rm] addServed_device[OF ad] by (cases device) auto
    then have D: "list_all2 dev_frame devs (devs[nat d_idx := device3\<lparr>server := pot\<rparr>])"
      by (rule upd)
    have s1: "list_all2 srv_frame srvs (srvs[?oid := old'])"
      using rmvServed_srv_frame[OF rm] o
      by (intro list_all2_update_right) (simp_all add: list_all2_refl srv_frame_refl)
    have "list_all2 srv_frame (srvs[?oid := old']) (srvs[?oid := old', ?nid := new'])"
      using addServed_srv_frame[OF ad] n
      by (intro list_all2_update_right[where ys="srvs[?oid := old']"])
         (simp_all add: list_all2_refl srv_frame_refl)
    with s1 have "list_all2 srv_frame srvs (srvs[?oid := old', ?nid := new'])"
      by (rule srvs_frame_trans)
    then show ?thesis using D neighbor_move_served[OF True rm ad] by simp
  next
    case False
    obtain ok2 new' device3 where ad: "addServed (srvs ! ?nid) device = (ok2, new', device3)"
      by (cases "addServed (srvs ! ?nid) device") auto
    have "device3 = device\<lparr>served := served device3\<rparr>"
      using addServed_device[OF ad] by (cases device) auto
    then have D: "list_all2 dev_frame devs (devs[nat d_idx := device3\<lparr>server := pot\<rparr>])"
      by (rule upd)
    have "list_all2 srv_frame srvs (srvs[?nid := new'])"
      using addServed_srv_frame[OF ad] n
      by (intro list_all2_update_right) (simp_all add: list_all2_refl srv_frame_refl)
    then show ?thesis using D neighbor_move_unserved[OF False ad] by simp
  qed
qed

lemma generateNeighbor_cases:
  assumes "generateNeighbor devs srvs coveredIdx cns csu d = Inr r"
  shows "r = (devs, srvs, cns, csu) \<or>
     (\<exists>d_idx device pot old_server new_server.
        at_idx devs d_idx = Inr device \<and>
        cov_id pot \<noteq> cov_id (server device) \<and>
        at_idx srvs (cov_id (server device)) = Inr old_server \<and>
        at_idx srvs (cov_id pot) = Inr new_server \<and> canServe new_server device \<and>
        r = neighbor_move devs srvs d_idx device pot cns csu)"
proof -
  from assms obtain d_idx device idxs where
    dev: "at_idx devs d_idx = Inr device" and
    loop: "neighbor_loop devs srvs d_idx device cns csu 0 idxs = Inr r"
    by (auto simp: generateNeighbor_def split: sum.splits)
  from neighbor_loop_cases[OF loop] dev show ?thesis by blast
qed

lemma generateNeighbor_pres:
  assumes A: "\<And>s d ok s' d'. P s \<Longrightarrow> canServe s d \<Longrightarrow> addServed s d = (ok, s', d') \<Longrightarrow> P s'"
    and R: "\<And>s d ok s' d'. P s \<Longrightarrow> d \<in> set devs \<Longrightarrow> rmvServed s d = (ok, s', d') \<Longrightarrow> P s'"
    and all: "list_all P srvs"
    and gen: "generateNeighbor devs srvs coveredIdx cns csu d = Inr (devs', srvs', cns', csu')"
  shows "list_all P srvs'"
  using generateNeighbor_cases[OF gen]
proof (elim disjE exE conjE)
  assume "(devs', srvs', cns', csu') = (devs, srvs, cns, csu)"
  then show ?thesis using all by simp
next
  fix d_idx device pot old_server new_server
  assume dev: "at_idx devs d_idx = Inr device"
    and ne: "cov_id pot \<noteq> cov_id (server device)"
    and old: "at_idx srvs (cov_id (server device)) = Inr old_server"
    and new: "at_idx srvs (cov_id pot) = Inr new_server" and can: "canServe new_server device"
    and r: "(devs', srvs', cns', csu') = neighbor_move devs srvs d_idx device pot cns csu"
  have "device \<in> set devs" using at_idx_Inr[OF dev] by simp
  then have R': "\<And>s ok s' d'. P s \<Longrightarrow> rmvServed s device = (ok, s', d') \<Longrightarrow> P s'"
    using R by blast
  have "list_all P (fst (snd (neighbor_move devs srvs d_idx device pot cns csu)))"
  proof (rule neighbor_move_pres[where P=P and old_server=old_server and new_server=new_server])
    show "\<And>s d ok s' d'. P s \<Longrightarrow> canServe s d \<Longrightarrow> addServed s d = (ok, s', d') \<Longrightarrow> P s'"
      by (rule A)
    show "\<And>s ok s' d'. P s \<Longrightarrow> rmvServed s device = (ok, s', d') \<Longrightarrow> P s'"
      by (rule R')
  qed (fact all old new can ne)+
  with r show ?thesis by (metis fst_conv snd_conv)
qed

lemma generateNeighbor_frame:
  assumes gen: "generateNeighbor devs srvs coveredIdx cns csu d = Inr (devs', srvs', cns', csu')"
  shows "list_all2 dev_frame devs devs' \<and> list_all2 srv_frame srvs srvs'"
  using generateNeighbor_cases[OF gen]
proof (elim disjE exE conjE)
  assume "(devs', srvs', cns', csu') = (devs, srvs, cns, csu)"
  then show ?thesis by (simp add: list_all2_refl dev_frame_refl srv_frame_refl)
next
  fix d_idx device pot old_server new_server
  assume dev: "at_idx devs d_idx = Inr device"
    and old: "at_idx srvs (cov_id (server device)) = Inr old_server"
    and new: "at_idx srvs (cov_id pot) = Inr new_server"
    and r: "(devs', srvs', cns', csu') = neighbor_move devs srvs d_idx device pot cns csu"
  from neighbor_move_frame[OF dev old new, where cns=cns and csu=csu] r
  show ?thesis by (metis fst_conv snd_conv)
qed


subsection \<open>Simulated annealing\<close>

lemma sa_iteration_cases:
  assumes "sa_iteration coveredIdx T d s = Inr (improved, s')"
  shows "s' = s \<or>
    (\<exists>nd ns ncns ncsu.
       generateNeighbor (currentDevices s) (currentServers s) coveredIdx
         (currentCNS s) (currentCSU s) d = Inr (nd, ns, ncns, ncsu) \<and>
       (s' = s\<lparr>currentCNS := ncns, currentCSU := ncsu, currentCost := ncns + ncsu,
                currentDevices := nd, currentServers := ns\<rparr> \<or>
        (ncns + ncsu < bestCost s \<and>
         s' = s\<lparr>currentCNS := ncns, currentCSU := ncsu, currentCost := ncns + ncsu,
                currentDevices := nd, currentServers := ns, bestCNS := ncns, bestCSU := ncsu,
                bestCost := ncns + ncsu, bestDevices := nd, bestServers := ns\<rparr>)))"
  using assms
  by (auto simp: sa_iteration_def Let_def split: sum.splits prod.splits if_splits)

lemma sa_iteration_pres:
  assumes G: "\<And>devs srvs cns csu devs' srvs' cns' csu'.
        I devs srvs \<Longrightarrow>
        generateNeighbor devs srvs coveredIdx cns csu d = Inr (devs', srvs', cns', csu') \<Longrightarrow>
        I devs' srvs'"
    and cur: "I (currentDevices s) (currentServers s)"
    and best: "I (bestDevices s) (bestServers s)"
    and it: "sa_iteration coveredIdx T d s = Inr (improved, s')"
  shows "I (currentDevices s') (currentServers s') \<and> I (bestDevices s') (bestServers s')"
  using sa_iteration_cases[OF it] cur best G[OF cur] by auto

lemma sa_inner_pres:
  assumes G: "\<And>devs srvs cns csu d devs' srvs' cns' csu'.
        I devs srvs \<Longrightarrow>
        generateNeighbor devs srvs coveredIdx cns csu d = Inr (devs', srvs', cns', csu') \<Longrightarrow>
        I devs' srvs'"
  shows "I (currentDevices s) (currentServers s) \<Longrightarrow> I (bestDevices s) (bestServers s) \<Longrightarrow>
         sa_inner coveredIdx T i ds s = Some (Inr s') \<Longrightarrow>
         I (currentDevices s') (currentServers s') \<and> I (bestDevices s') (bestServers s')"
proof (induction ds arbitrary: i s)
  case Nil
  then show ?case by (simp split: if_splits)
next
  case (Cons d ds)
  show ?case
  proof (cases "i < 10")
    case False
    with Cons.prems show ?thesis by simp
  next
    case True
    with Cons.prems(3) obtain improved s1 where
      it: "sa_iteration coveredIdx T d s = Inr (improved, s1)" and
      rec: "sa_inner coveredIdx T (Suc (if improved then 0 else i)) ds s1 = Some (Inr s')"
      by (auto split: sum.splits prod.splits)
    from sa_iteration_pres[where I=I, OF G Cons.prems(1,2) it]
    have "I (currentDevices s1) (currentServers s1)" "I (bestDevices s1) (bestServers s1)"
      by simp_all
    then show ?thesis using rec by (rule Cons.IH)
  qed
qed

lemma sa_outer_pres:
  assumes G: "\<And>devs srvs cns csu d devs' srvs' cns' csu'.
        I devs srvs \<Longrightarrow>
        generateNeighbor devs srvs coveredIdx cns csu d = Inr (devs', srvs', cns', csu') \<Longrightarrow>
        I devs' srvs'"
  shows "I (currentDevices s) (currentServers s) \<Longrightarrow> I (bestDevices s) (bestServers s) \<Longrightarrow>
         sa_outer coveredIdx T alpha dss s = Some (Inr s') \<Longrightarrow>
         I (currentDevices s') (currentServers s') \<and> I (bestDevices s') (bestServers s')"
proof (induction dss arbitrary: T s)
  case Nil
  then show ?case by (simp split: if_splits)
next
  case (Cons ds dss)
  show ?case
  proof (cases "T > 1 / 1000")
    case False
    with Cons.prems show ?thesis by simp
  next
    case True
    with Cons.prems(3) obtain s1 where
      inner: "sa_inner coveredIdx T 0 ds s = Some (Inr s1)" and
      rec: "sa_outer coveredIdx (T * alpha) alpha dss s1 = Some (Inr s')"
      by (auto split: option.splits sum.splits)
    from sa_inner_pres[where I=I, OF G Cons.prems(1,2) inner]
    have "I (currentDevices s1) (currentServers s1)" "I (bestDevices s1) (bestServers s1)"
      by simp_all
    then show ?thesis using rec by (rule Cons.IH)
  qed
qed

lemma sa_iteration_bestCost:
  "sa_iteration coveredIdx T d s = Inr (improved, s') \<Longrightarrow> bestCost s' \<le> bestCost s"
  by (drule sa_iteration_cases) auto

lemma sa_inner_bestCost:
  "sa_inner coveredIdx T i ds s = Some (Inr s') \<Longrightarrow> bestCost s' \<le> bestCost s"
proof (induction ds arbitrary: i s)
  case Nil
  then show ?case by (simp split: if_splits)
next
  case (Cons d ds)
  show ?case
  proof (cases "i < 10")
    case False
    with Cons.prems show ?thesis by simp
  next
    case True
    with Cons.prems obtain improved s1 where
      it: "sa_iteration coveredIdx T d s = Inr (improved, s1)" and
      rec: "sa_inner coveredIdx T (Suc (if improved then 0 else i)) ds s1 = Some (Inr s')"
      by (auto split: sum.splits prod.splits)
    from Cons.IH[OF rec] sa_iteration_bestCost[OF it] show ?thesis by simp
  qed
qed

lemma sa_outer_bestCost:
  "sa_outer coveredIdx T alpha dss s = Some (Inr s') \<Longrightarrow> bestCost s' \<le> bestCost s"
proof (induction dss arbitrary: T s)
  case Nil
  then show ?case by (simp split: if_splits)
next
  case (Cons ds dss)
  show ?case
  proof (cases "T > 1 / 1000")
    case False
    with Cons.prems show ?thesis by simp
  next
    case True
    with Cons.prems obtain s1 where
      inner: "sa_inner coveredIdx T 0 ds s = Some (Inr s1)" and
      rec: "sa_outer coveredIdx (T * alpha) alpha dss s1 = Some (Inr s')"
      by (auto split: option.splits sum.splits)
    from Cons.IH[OF rec] sa_inner_bestCost[OF inner] show ?thesis by simp
  qed
qed

section \<open>Commit and release\<close>

text \<open>
  C9. For a device that is not in the server's served set, \<open>addServed\<close> succeeds, the
  following \<open>rmvServed\<close> succeeds, the demand accumulator (the five resource sums, the
  cost sum and the served set) is back at its value before the commit, and the device's
  \<open>served\<close> flag is cleared. For a device that is not served by the server, \<open>rmvServed\<close>
  returns false and changes neither the server nor the device. Over the reals the
  accumulator is restored exactly.
\<close>

theorem addServed_rmvServed_round_trip:
  "dev_id device \<notin> devices_served (srv_supply s) \<longrightarrow>
     (case addServed s device of (ok1, s1, device1) \<Rightarrow>
        (case rmvServed s1 device1 of (ok2, s2, device2) \<Rightarrow>
           ok1 \<and> ok2 \<and> srv_supply s2 = srv_supply s \<and> \<not> served device2 \<and>
           device2 = device\<lparr>served := False\<rparr>))
     \<and> rmvServed s device = (False, s, device)"
  by (simp add: addServed_def rmvServed_def Let_def)

theorem addServed_rmvServed_round_trip_witness:
  "dev_id (mkDevice 1 0 0 5 1 1 2 3 1 1)
     \<notin> devices_served (srv_supply (mkServer 1 0 0 1 2 4 8 16 1 CHR ''E'')) \<and>
   (case addServed (mkServer 1 0 0 1 2 4 8 16 1 CHR ''E'') (mkDevice 1 0 0 5 1 1 2 3 1 1) of
      (ok1, s1, device1) \<Rightarrow>
        (case rmvServed s1 device1 of (ok2, s2, device2) \<Rightarrow>
           ok1 \<and> ok2 \<and> srv_supply s2 = srv_supply (mkServer 1 0 0 1 2 4 8 16 1 CHR ''E'') \<and>
           \<not> served device2 \<and> device2 = (mkDevice 1 0 0 5 1 1 2 3 1 1)\<lparr>served := False\<rparr>)) \<and>
   rmvServed (mkServer 1 0 0 1 2 4 8 16 1 CHR ''E'') (mkDevice 1 0 0 5 1 1 2 3 1 1)
     = (False, mkServer 1 0 0 1 2 4 8 16 1 CHR ''E'', mkDevice 1 0 0 5 1 1 2 3 1 1)"
  using addServed_rmvServed_round_trip
    [of "mkDevice 1 0 0 5 1 1 2 3 1 1" "mkServer 1 0 0 1 2 4 8 16 1 CHR ''E''"]
  by (simp add: mkDevice_def mkServer_def server_supply0_def)

section \<open>Runs of the strategies\<close>

subsection \<open>The example runs\<close>

lemmas ex_defs = ex_link_def ex_device_def ex_server_def ex_pre_def ex_state_def ex_draw_def
  ex_served_def ex_loaded_def ex_sa_moved_def ex_metrics_served_def ex_committed_def
  ex_slow_def ex_fast_def ex_two_links_def ex_uncovered_def ex_tie_devices_def
  ex_geo_def ex_near_def ex_far_def ex_cloud_def ex_loaded_devices_def ex_loaded_servers_def
  ex_small_def ex_tie_def ex_big_def ex_big_state_def ex_negative_servers_def
  ex_refund_devices_def ex_refund_servers_def
  mkDevice_def mkServer_def mkMetrics_def Device0_def Server0_def server_covering0_def
  server_covering1_def server_covering2_def server_supply0_def

lemmas op_defs = at_idx_def randomNumber_def shuffledRange_def canServe_def addServed_def
  rmvServed_def neighbor_move_def generateNeighbor_def sa_iteration_def sa_init_def
  calculateMetrics_def Let_def

lemma upto_0_0: "[0..0::int] = [0]"
  by (simp add: upto_rec1)

lemma ex_random_reject: "randomHeuristic [] (\<lambda>k. 1) ex_pre = Inr ex_state"
  by (simp add: randomHeuristic_def ex_defs op_defs)

lemma ex_random_commit: "randomHeuristic [] (\<lambda>k. 0) ex_pre = Inr ex_committed"
  by (simp add: randomHeuristic_def ex_defs op_defs)

lemma ex_greedy_commit: "greedyHeuristic ex_pre True True = Inr ex_committed"
  by (simp add: greedyHeuristic_def sortEntities_def sort_indices_impl_def std_sort_def
      ex_defs op_defs)

lemma ex_neighbor:
  "generateNeighbor (st_devices ex_state) (st_servers ex_state) (coveredDevicesIdx ex_state)
     5 0 ex_draw = Inr ([Device0, ex_served], [Server0, ex_loaded], 0, 1)"
  by (simp add: ex_defs op_defs upto_0_0)

lemma ex_covered: "coveredDevicesIdx ex_state = [1]"
  by (simp add: ex_state_def ex_pre_def)

lemma ex_iteration_first:
  "sa_iteration [1] (1 / 500) ex_draw (sa_init ex_state) = Inr (True, ex_sa_moved)"
  by (simp add: ex_defs op_defs upto_0_0)

lemma ex_iteration_next:
  "sa_iteration [1] (1 / 500) ex_draw ex_sa_moved = Inr (False, ex_sa_moved)"
  by (simp add: ex_defs op_defs upto_0_0)

lemma ex_inner:
  "sa_inner [1] (1 / 500) 0 (replicate 10 ex_draw) (sa_init ex_state) = Some (Inr ex_sa_moved)"
  by (simp add: ex_iteration_first ex_iteration_next numeral_nat)

lemma ex_outer:
  "sa_outer [1] (1 / 500) (1 / 2) [replicate 10 ex_draw] (sa_init ex_state)
     = Some (Inr ex_sa_moved)"
  by (simp add: ex_inner)

lemma ex_best_metrics:
  "calculateMetrics (bestDevices ex_sa_moved) (bestServers ex_sa_moved) (metrics ex_state)
     = Inr ex_metrics_served"
  by (simp add: ex_defs op_defs)

lemma ex_annealing:
  "simulatedAnnealing ex_state (1 / 500) (1 / 2) [replicate 10 ex_draw]
     = Some (Inr (ex_state\<lparr>metrics := ex_metrics_served\<rparr>))"
  by (simp only: simulatedAnnealing_def ex_covered ex_outer ex_best_metrics option.case sum.case)

subsection \<open>The heuristics as their loops\<close>

lemma randomHeuristic_Inr:
  assumes "randomHeuristic rs picks st = Inr st'"
  shows "random_loop picks 0 (shuffle rs (coveredDevicesIdx st)) (st_devices st) (st_servers st)
           = Inr (st_devices st', st_servers st')"
    and "coveredDevicesIdx st' = coveredDevicesIdx st"
  using assms by (auto simp: randomHeuristic_def split: sum.splits prod.splits)

lemma greedyHeuristic_Inr:
  assumes "greedyHeuristic st sortDevicesAsc sortServersAsc = Inr st'"
  shows "\<exists>idxs. sortEntities sortDevicesAsc cnd (st_devices st) (coveredDevicesIdx st) = Inr idxs \<and>
           greedy_loop sortServersAsc idxs (st_devices st) (st_servers st)
             = Inr (st_devices st', st_servers st')"
    and "coveredDevicesIdx st' = coveredDevicesIdx st"
  using assms by (auto simp: greedyHeuristic_def split: sum.splits prod.splits)

lemma simulatedAnnealing_Inr:
  assumes "simulatedAnnealing st T alpha dss = Some (Inr st')"
  shows "\<exists>sa m. sa_outer (coveredDevicesIdx st) T alpha dss (sa_init st) = Some (Inr sa) \<and>
           calculateMetrics (bestDevices sa) (bestServers sa) (metrics st) = Inr m \<and>
           st' = st\<lparr>metrics := m\<rparr>"
  using assms by (auto simp: simulatedAnnealing_def split: option.splits sum.splits)

lemma simulatedAnnealing_state:
  assumes "simulatedAnnealing st T alpha dss = Some (Inr st')"
  shows "st_devices st' = st_devices st" and "st_servers st' = st_servers st"
    and "coveredDevicesIdx st' = coveredDevicesIdx st"
  using simulatedAnnealing_Inr[OF assms] by auto

lemma devs_frame_nonneg:
  assumes "list_all2 dev_frame devs devs'" and "list_all nonneg_demand devs"
  shows "list_all nonneg_demand devs'"
  unfolding list_all_length
proof (intro allI impI)
  fix n assume n: "n < length devs'"
  have len: "length devs = length devs'" using assms(1) by (rule list_all2_lengthD)
  have "dev_frame (devs ! n) (devs' ! n)" using assms(1) n len by (simp add: list_all2_nthD)
  moreover have "nonneg_demand (devs ! n)" using assms(2) n len by (simp add: list_all_length)
  ultimately show "nonneg_demand (devs' ! n)" by (rule dev_frame_nonneg)
qed

lemma randomHeuristic_pres:
  assumes "\<And>s d ok s' d'. P s \<Longrightarrow> canServe s d \<Longrightarrow> addServed s d = (ok, s', d') \<Longrightarrow> P s'"
    and "list_all P (st_servers st)" and "randomHeuristic rs picks st = Inr st'"
  shows "list_all P (st_servers st')"
  using random_loop_pres[where P=P, OF assms(1) assms(2) randomHeuristic_Inr(1)[OF assms(3)]] .

lemma greedyHeuristic_pres:
  assumes "\<And>s d ok s' d'. P s \<Longrightarrow> canServe s d \<Longrightarrow> addServed s d = (ok, s', d') \<Longrightarrow> P s'"
    and "list_all P (st_servers st)" and "greedyHeuristic st a b = Inr st'"
  shows "list_all P (st_servers st')"
proof -
  from greedyHeuristic_Inr(1)[OF assms(3)] obtain idxs where
    loop: "greedy_loop b idxs (st_devices st) (st_servers st) = Inr (st_devices st', st_servers st')"
    by blast
  show ?thesis
  proof (rule greedy_loop_pres[where P=P, OF _ assms(2) loop])
    show "\<And>s d ok s' d'. P s \<Longrightarrow> canServe s d \<Longrightarrow> addServed s d = (ok, s', d') \<Longrightarrow> P s'"
      by (rule assms(1))
  qed
qed

lemma generateNeighbor_capacity:
  assumes "list_all capacity_ok srvs \<and> list_all nonneg_demand devs"
    and gen: "generateNeighbor devs srvs coveredIdx cns csu d = Inr (devs', srvs', cns', csu')"
  shows "list_all capacity_ok srvs' \<and> list_all nonneg_demand devs'"
proof
  show "list_all capacity_ok srvs'"
  proof (rule generateNeighbor_pres[where P=capacity_ok, OF _ _ _ gen])
    show "\<And>s d ok s' d'. capacity_ok s \<Longrightarrow> canServe s d \<Longrightarrow> addServed s d = (ok, s', d')
            \<Longrightarrow> capacity_ok s'"
      by (rule addServed_capacity_ok)
    show "\<And>s d ok s' d'. capacity_ok s \<Longrightarrow> d \<in> set devs \<Longrightarrow> rmvServed s d = (ok, s', d')
            \<Longrightarrow> capacity_ok s'"
      using assms(1) by (auto simp: list_all_iff intro: rmvServed_capacity_ok)
    show "list_all capacity_ok srvs" using assms(1) by simp
  qed
  show "list_all nonneg_demand devs'"
    using generateNeighbor_frame[OF gen] assms(1) by (blast intro: devs_frame_nonneg)
qed

lemma generateNeighbor_active:
  assumes "list_all active_ok srvs"
    and gen: "generateNeighbor devs srvs coveredIdx cns csu d = Inr (devs', srvs', cns', csu')"
  shows "list_all active_ok srvs'"
proof (rule generateNeighbor_pres[where P=active_ok, OF _ _ _ gen])
  show "\<And>s d ok s' d'. active_ok s \<Longrightarrow> canServe s d \<Longrightarrow> addServed s d = (ok, s', d')
          \<Longrightarrow> active_ok s'"
    by (rule addServed_active_ok)
  show "\<And>s d ok s' d'. active_ok s \<Longrightarrow> d \<in> set devs \<Longrightarrow> rmvServed s d = (ok, s', d')
          \<Longrightarrow> active_ok s'"
    by (rule rmvServed_active_ok)
  show "list_all active_ok srvs" by (rule assms(1))
qed

lemma sa_outer_capacity:
  assumes "list_all capacity_ok (st_servers st)" and "list_all nonneg_demand (st_devices st)"
    and "sa_outer coveredIdx T alpha dss (sa_init st) = Some (Inr sa)"
  shows "list_all capacity_ok (bestServers sa) \<and> list_all capacity_ok (currentServers sa)"
proof -
  have "(list_all capacity_ok (currentServers sa) \<and> list_all nonneg_demand (currentDevices sa)) \<and>
        (list_all capacity_ok (bestServers sa) \<and> list_all nonneg_demand (bestDevices sa))"
  proof (rule sa_outer_pres[where I="\<lambda>devs srvs. list_all capacity_ok srvs \<and> list_all nonneg_demand devs",
        OF _ _ _ assms(3)])
    show "\<And>devs srvs cns csu d devs' srvs' cns' csu'.
       list_all capacity_ok srvs \<and> list_all nonneg_demand devs \<Longrightarrow>
       generateNeighbor devs srvs coveredIdx cns csu d = Inr (devs', srvs', cns', csu') \<Longrightarrow>
       list_all capacity_ok srvs' \<and> list_all nonneg_demand devs'"
      by (rule generateNeighbor_capacity)
  qed (simp_all add: sa_init_def assms(1,2))
  then show ?thesis by simp
qed

lemma sa_outer_active:
  assumes "list_all active_ok (st_servers st)"
    and "sa_outer coveredIdx T alpha dss (sa_init st) = Some (Inr sa)"
  shows "list_all active_ok (bestServers sa) \<and> list_all active_ok (currentServers sa)"
proof -
  have "list_all active_ok (currentServers sa) \<and> list_all active_ok (bestServers sa)"
  proof (rule sa_outer_pres[where I="\<lambda>devs srvs. list_all active_ok srvs", OF _ _ _ assms(2)])
    show "\<And>devs srvs cns csu d devs' srvs' cns' csu'.
       list_all active_ok srvs \<Longrightarrow>
       generateNeighbor devs srvs coveredIdx cns csu d = Inr (devs', srvs', cns', csu') \<Longrightarrow>
       list_all active_ok srvs'"
      by (rule generateNeighbor_active)
  qed (simp_all add: sa_init_def assms(1))
  then show ?thesis by simp
qed

lemma sa_outer_frame:
  assumes "sa_outer coveredIdx T alpha dss (sa_init st) = Some (Inr sa)"
  shows "list_all2 dev_frame (st_devices st) (bestDevices sa) \<and>
         list_all2 srv_frame (st_servers st) (bestServers sa) \<and>
         list_all2 dev_frame (st_devices st) (currentDevices sa) \<and>
         list_all2 srv_frame (st_servers st) (currentServers sa)"
proof -
  let ?I = "\<lambda>devs srvs. list_all2 dev_frame (st_devices st) devs \<and>
              list_all2 srv_frame (st_servers st) srvs"
  have "?I (currentDevices sa) (currentServers sa) \<and> ?I (bestDevices sa) (bestServers sa)"
  proof (rule sa_outer_pres[where I="?I", OF _ _ _ assms])
    show "\<And>devs srvs cns csu d devs' srvs' cns' csu'.
       ?I devs srvs \<Longrightarrow>
       generateNeighbor devs srvs coveredIdx cns csu d = Inr (devs', srvs', cns', csu') \<Longrightarrow>
       ?I devs' srvs'"
      by (blast dest: generateNeighbor_frame intro: devs_frame_trans srvs_frame_trans)
  qed (simp_all add: sa_init_def list_all2_refl dev_frame_refl srv_frame_refl)
  then show ?thesis by simp
qed

lemma randomHeuristic_frame:
  assumes "randomHeuristic rs picks st = Inr st'"
  shows "list_all2 dev_frame (st_devices st) (st_devices st') \<and>
         list_all2 srv_frame (st_servers st) (st_servers st')"
  using random_loop_frame[OF randomHeuristic_Inr(1)[OF assms]] .

lemma greedyHeuristic_frame:
  assumes "greedyHeuristic st a b = Inr st'"
  shows "list_all2 dev_frame_perm (st_devices st) (st_devices st') \<and>
         list_all2 srv_frame (st_servers st) (st_servers st')"
  using greedyHeuristic_Inr(1)[OF assms] greedy_loop_frame by blast

section \<open>Monotone best cost\<close>

text \<open>
  C6. In \<open>simulatedAnnealing\<close> the best-known cost never increases: it is at most its
  previous value after every attempt of the inner loop, after every temperature level
  (one pass of the inner loop, that is one iteration of the outer loop), and after the
  whole search.
\<close>

theorem bestCost_non_increasing:
  "(sa_iteration coveredIdx T d s = Inr (improved, s1) \<longrightarrow> bestCost s1 \<le> bestCost s) \<and>
   (sa_inner coveredIdx T i ds s = Some (Inr s2) \<longrightarrow> bestCost s2 \<le> bestCost s) \<and>
   (sa_outer coveredIdx T alpha dss s = Some (Inr s3) \<longrightarrow> bestCost s3 \<le> bestCost s)"
  by (blast intro: sa_iteration_bestCost sa_inner_bestCost sa_outer_bestCost)

theorem bestCost_non_increasing_witness:
  "sa_iteration [1] (1 / 500) ex_draw (sa_init ex_state) = Inr (True, ex_sa_moved) \<and>
   sa_inner [1] (1 / 500) 0 (replicate 10 ex_draw) (sa_init ex_state) = Some (Inr ex_sa_moved) \<and>
   sa_outer [1] (1 / 500) (1 / 2) [replicate 10 ex_draw] (sa_init ex_state)
     = Some (Inr ex_sa_moved) \<and>
   bestCost (sa_init ex_state) = 5 \<and> bestCost ex_sa_moved = 1 \<and>
   bestCost ex_sa_moved \<le> bestCost (sa_init ex_state)"
proof -
  from bestCost_non_increasing[where coveredIdx="[1]" and T="1 / 500" and d=ex_draw
      and s="sa_init ex_state" and improved=True and ?s1.0=ex_sa_moved] ex_iteration_first
  have "bestCost ex_sa_moved \<le> bestCost (sa_init ex_state)" by blast
  moreover have "bestCost (sa_init ex_state) = 5 \<and> bestCost ex_sa_moved = 1"
    by (simp add: ex_defs sa_init_def)
  ultimately show ?thesis using ex_iteration_first ex_inner ex_outer by blast
qed

section \<open>What simulated annealing returns\<close>

text \<open>
  C2, evaluated on a run in which the search improves on its input. The state is
  \<open>ex_state\<close> (device 1 covered and unserved, non-service cost 5), the temperature
  \<open>1/500\<close>, the cooling factor \<open>1/2\<close>, and ten attempts at the single temperature level.
  The first attempt moves the device to server 1 and becomes the best solution, of
  cost 1. The returned state carries the metrics of that best solution (one served
  device, servers-used cost 1), but its devices and servers are those of the input:
  the device is still unserved and the server still idle.
\<close>

theorem simulatedAnnealing_returns_input_devices:
  "simulatedAnnealing ex_state (1 / 500) (1 / 2) [replicate 10 ex_draw]
     = Some (Inr (ex_state\<lparr>metrics := ex_metrics_served\<rparr>)) \<and>
   sa_outer (coveredDevicesIdx ex_state) (1 / 500) (1 / 2) [replicate 10 ex_draw]
     (sa_init ex_state) = Some (Inr ex_sa_moved) \<and>
   bestDevices ex_sa_moved = [Device0, ex_served] \<and>
   bestServers ex_sa_moved = [Server0, ex_loaded] \<and>
   st_devices (ex_state\<lparr>metrics := ex_metrics_served\<rparr>) = [Device0, ex_device] \<and>
   st_servers (ex_state\<lparr>metrics := ex_metrics_served\<rparr>) = [Server0, ex_server] \<and>
   served ex_served \<and> \<not> served ex_device \<and> srv_on ex_loaded \<and> \<not> srv_on ex_server \<and>
   devices_served_count ex_metrics_served = 1 \<and> cost_of_servers_used ex_metrics_served = 1 \<and>
   cost_of_non_service ex_metrics_served = 0"
  using ex_annealing ex_outer
  by (simp add: ex_covered) (simp add: ex_defs)

section \<open>Frame of the strategies\<close>

lemma ex_greedy_two_links:
  "greedyHeuristic ex_two_links True True =
     Inr (ex_two_links\<lparr>
       st_devices := [Device0, ex_device\<lparr>servers := [ex_fast, ex_slow], served := True,
                                         server := ex_fast\<rparr>],
       st_servers := [Server0, ex_server, ex_loaded\<lparr>srv_id := 2\<rparr>],
       metrics := (metrics ex_two_links)\<lparr>devices_served_count := 1,
          devices_served_ec_count := 1, servers_used_count := 1, servers_used_ec_count := 1,
          cost_of_servers_used := 1, total_cost := 1, average_response_time := 1\<rparr>\<rparr>)"
  by (simp add: greedyHeuristic_def sortEntities_def sort_indices_impl_def std_sort_def
      responseTime_before_def ex_defs op_defs)

text \<open>
  C4 as stated fails for the greedy heuristic, which sorts \<open>device.servers\<close> in place:
  on \<open>ex_two_links\<close> the candidate list \<open>[ex_slow, ex_fast]\<close> of device 1 is
  \<open>[ex_fast, ex_slow]\<close> after the ascending greedy run.
\<close>

theorem greedy_reorders_candidates:
  "servers (st_devices ex_two_links ! 1) = [ex_slow, ex_fast] \<and>
   \<not> isl (greedyHeuristic ex_two_links True True) \<and>
   servers (st_devices (projr (greedyHeuristic ex_two_links True True)) ! 1)
     = [ex_fast, ex_slow] \<and>
   [ex_slow, ex_fast] \<noteq> [ex_fast, ex_slow]"
  by (simp add: ex_greedy_two_links) (simp add: ex_defs)

text \<open>
  C4, amended. Every strategy leaves every field of every device unchanged except
  \<open>served\<close>, \<open>server\<close> and, under the greedy heuristic only, the order of the candidate
  list: the random heuristic, the neighbour step and the annealing search keep the
  candidate list of each device identical, the greedy heuristic keeps its entries (each
  with its id, routing hint, distance and timing fields) and may permute them. Servers
  change only in their active flag and demand accumulator, and the covered-index list
  does not change. Simulated annealing returns the devices and servers it was given.
\<close>

theorem strategies_frame:
  "(randomHeuristic rs picks st = Inr st1 \<longrightarrow>
      list_all2 dev_frame (st_devices st) (st_devices st1) \<and>
      list_all2 srv_frame (st_servers st) (st_servers st1) \<and>
      coveredDevicesIdx st1 = coveredDevicesIdx st) \<and>
   (greedyHeuristic st sortDevicesAsc sortServersAsc = Inr st2 \<longrightarrow>
      list_all2 dev_frame_perm (st_devices st) (st_devices st2) \<and>
      list_all2 srv_frame (st_servers st) (st_servers st2) \<and>
      coveredDevicesIdx st2 = coveredDevicesIdx st) \<and>
   (generateNeighbor devs srvs coveredIdx cns csu d = Inr (devs', srvs', cns', csu') \<longrightarrow>
      list_all2 dev_frame devs devs' \<and> list_all2 srv_frame srvs srvs') \<and>
   (sa_outer coveredIdx T alpha dss (sa_init st) = Some (Inr sa) \<longrightarrow>
      list_all2 dev_frame (st_devices st) (bestDevices sa) \<and>
      list_all2 srv_frame (st_servers st) (bestServers sa) \<and>
      list_all2 dev_frame (st_devices st) (currentDevices sa) \<and>
      list_all2 srv_frame (st_servers st) (currentServers sa)) \<and>
   (simulatedAnnealing st T alpha dss = Some (Inr st3) \<longrightarrow>
      st_devices st3 = st_devices st \<and> st_servers st3 = st_servers st \<and>
      coveredDevicesIdx st3 = coveredDevicesIdx st)"
proof (intro conjI impI)
  assume h: "randomHeuristic rs picks st = Inr st1"
  from randomHeuristic_frame[OF h]
  show "list_all2 dev_frame (st_devices st) (st_devices st1)"
    "list_all2 srv_frame (st_servers st) (st_servers st1)" by simp_all
  show "coveredDevicesIdx st1 = coveredDevicesIdx st" by (rule randomHeuristic_Inr(2)[OF h])
next
  assume h: "greedyHeuristic st sortDevicesAsc sortServersAsc = Inr st2"
  from greedyHeuristic_frame[OF h]
  show "list_all2 dev_frame_perm (st_devices st) (st_devices st2)"
    "list_all2 srv_frame (st_servers st) (st_servers st2)" by simp_all
  show "coveredDevicesIdx st2 = coveredDevicesIdx st" by (rule greedyHeuristic_Inr(2)[OF h])
next
  assume h: "generateNeighbor devs srvs coveredIdx cns csu d = Inr (devs', srvs', cns', csu')"
  from generateNeighbor_frame[OF h]
  show "list_all2 dev_frame devs devs'" "list_all2 srv_frame srvs srvs'" by simp_all
next
  assume h: "sa_outer coveredIdx T alpha dss (sa_init st) = Some (Inr sa)"
  from sa_outer_frame[OF h]
  show "list_all2 dev_frame (st_devices st) (bestDevices sa)"
    "list_all2 srv_frame (st_servers st) (bestServers sa)"
    "list_all2 dev_frame (st_devices st) (currentDevices sa)"
    "list_all2 srv_frame (st_servers st) (currentServers sa)" by simp_all
next
  assume h: "simulatedAnnealing st T alpha dss = Some (Inr st3)"
  from simulatedAnnealing_state[OF h]
  show "st_devices st3 = st_devices st" "st_servers st3 = st_servers st"
    "coveredDevicesIdx st3 = coveredDevicesIdx st" by simp_all
qed

theorem strategies_frame_witness:
  "randomHeuristic [] (\<lambda>k. 0) ex_pre = Inr ex_committed \<and>
   list_all2 dev_frame (st_devices ex_pre) (st_devices ex_committed) \<and>
   list_all2 srv_frame (st_servers ex_pre) (st_servers ex_committed) \<and>
   map servers (st_devices ex_committed) = map servers (st_devices ex_pre) \<and>
   \<not> isl (greedyHeuristic ex_two_links True True) \<and>
   list_all2 dev_frame_perm (st_devices ex_two_links)
     (st_devices (projr (greedyHeuristic ex_two_links True True))) \<and>
   list_all2 srv_frame (st_servers ex_two_links)
     (st_servers (projr (greedyHeuristic ex_two_links True True))) \<and>
   generateNeighbor (st_devices ex_state) (st_servers ex_state) [1] 5 0 ex_draw
     = Inr ([Device0, ex_served], [Server0, ex_loaded], 0, 1) \<and>
   list_all2 dev_frame (st_devices ex_state) [Device0, ex_served] \<and>
   list_all2 srv_frame (st_servers ex_state) [Server0, ex_loaded] \<and>
   sa_outer [1] (1 / 500) (1 / 2) [replicate 10 ex_draw] (sa_init ex_state)
     = Some (Inr ex_sa_moved) \<and>
   list_all2 dev_frame (st_devices ex_state) (bestDevices ex_sa_moved) \<and>
   list_all2 srv_frame (st_servers ex_state) (bestServers ex_sa_moved) \<and>
   simulatedAnnealing ex_state (1 / 500) (1 / 2) [replicate 10 ex_draw]
     = Some (Inr (ex_state\<lparr>metrics := ex_metrics_served\<rparr>)) \<and>
   st_devices (ex_state\<lparr>metrics := ex_metrics_served\<rparr>) = st_devices ex_state"
proof -
  note random = strategies_frame[THEN conjunct1, THEN mp]
  note greedy = strategies_frame[THEN conjunct2, THEN conjunct1, THEN mp]
  note neighbor = strategies_frame[THEN conjunct2, THEN conjunct2, THEN conjunct1, THEN mp]
  note search = strategies_frame[THEN conjunct2, THEN conjunct2, THEN conjunct2,
      THEN conjunct1, THEN mp]
  note anneal = strategies_frame[THEN conjunct2, THEN conjunct2, THEN conjunct2,
      THEN conjunct2, THEN mp]
  have g: "greedyHeuristic ex_two_links True True
      = Inr (projr (greedyHeuristic ex_two_links True True))"
    by (simp add: ex_greedy_two_links)
  have n: "generateNeighbor (st_devices ex_state) (st_servers ex_state) [1] 5 0 ex_draw
      = Inr ([Device0, ex_served], [Server0, ex_loaded], 0, 1)"
    using ex_neighbor by (simp add: ex_covered)
  have same: "map servers (st_devices ex_committed) = map servers (st_devices ex_pre)"
    by (simp add: ex_defs)
  have notl: "\<not> isl (greedyHeuristic ex_two_links True True)"
    by (simp add: ex_greedy_two_links)
  show ?thesis
    using ex_random_commit random[OF ex_random_commit] same notl greedy[OF g] n neighbor[OF n]
      ex_outer search[OF ex_outer] ex_annealing anneal[OF ex_annealing]
    by (intro conjI) blast+
qed

section \<open>Totality of the heuristics\<close>










































section \<open>Order of the greedy heuristic\<close>

lemma set_insert_by: "set (insert_by lt x xs) = insert x (set xs)"
  using mset_insert_by[of lt x xs] by (metis set_mset_add_mset_insert set_mset_mset)

lemma sorted_insert_by:
  assumes asym: "\<And>a b. lt a b \<Longrightarrow> \<not> lt b a"
    and trans: "\<And>a b c. \<not> lt b a \<Longrightarrow> \<not> lt c b \<Longrightarrow> \<not> lt c a"
  shows "sorted_wrt (\<lambda>a b. \<not> lt b a) xs \<Longrightarrow> sorted_wrt (\<lambda>a b. \<not> lt b a) (insert_by lt x xs)"
proof (induction xs)
  case Nil
  then show ?case by simp
next
  case (Cons y ys)
  show ?case
  proof (cases "lt y x")
    case True
    then have "\<not> lt x y" by (rule asym)
    then show ?thesis using True Cons by (auto simp: set_insert_by)
  next
    case False
    have "\<forall>z \<in> set ys. \<not> lt z x"
    proof
      fix z assume "z \<in> set ys"
      then have "\<not> lt z y" using Cons.prems by simp
      with False show "\<not> lt z x" by (rule trans)
    qed
    then show ?thesis using False Cons.prems by simp
  qed
qed

lemma sorted_std_sort:
  assumes asym: "\<And>a b. lt a b \<Longrightarrow> \<not> lt b a"
    and trans: "\<And>a b c. \<not> lt b a \<Longrightarrow> \<not> lt c b \<Longrightarrow> \<not> lt c a"
  shows "sorted_wrt (\<lambda>a b. \<not> lt b a) (std_sort lt xs)"
proof (induction xs)
  case Nil
  show ?case by (simp add: std_sort_def)
next
  case (Cons x xs)
  have "std_sort lt (x # xs) = insert_by lt x (std_sort lt xs)" by (simp add: std_sort_def)
  then show ?case using sorted_insert_by[where lt=lt, OF asym trans Cons] by simp
qed

text \<open>Two lists sorted by an antisymmetric order with the same elements are equal.\<close>

lemma sorted_by_unique:
  assumes antisym: "\<And>a b. le a b \<Longrightarrow> le b a \<Longrightarrow> a = b"
  shows "sorted_wrt le xs \<Longrightarrow> sorted_wrt le ys \<Longrightarrow> mset xs = mset ys \<Longrightarrow> xs = ys"
proof (induction xs arbitrary: ys)
  case Nil
  then show ?case by simp
next
  case (Cons x xs)
  from Cons.prems(3) obtain y ys' where ys: "ys = y # ys'" by (cases ys) auto
  have "x \<in> set ys" using Cons.prems(3) by (metis list.set_intros(1) set_mset_mset)
  then have a: "x = y \<or> le y x" using Cons.prems(2) ys by auto
  have "y \<in> set (x # xs)" using Cons.prems(3) ys by (metis list.set_intros(1) set_mset_mset)
  then have b: "y = x \<or> le x y" using Cons.prems(1) by auto
  have xy: "x = y" using a b antisym by blast
  then have "mset xs = mset ys'" using Cons.prems(3) ys by simp
  then have "xs = ys'" using Cons.IH Cons.prems(1,2) ys by simp
  then show ?case using xy ys by simp
qed

lemma index_before_asym:
  "index_before asc attr es a b \<Longrightarrow> \<not> index_before asc attr es b a"
  by (auto simp: index_before_def Let_def split: if_splits)

lemma index_before_trans:
  "\<not> index_before asc attr es b a \<Longrightarrow> \<not> index_before asc attr es c b
     \<Longrightarrow> \<not> index_before asc attr es c a"
  by (auto simp: index_before_def Let_def split: if_splits)

lemma index_before_antisym:
  "\<not> index_before asc attr es b a \<Longrightarrow> \<not> index_before asc attr es a b \<Longrightarrow> a = b"
  by (auto simp: index_before_def Let_def split: if_splits)


lemma sortEntities_Inr:
  assumes "sortEntities asc attr es idxs = Inr order"
  shows "order = std_sort (index_before asc attr es) idxs \<or> (order = [] \<and> (es = [] \<or> idxs = []))"
  using assms by (auto simp: sortEntities_def sort_indices_impl_def split: if_splits)

lemma sortEntities_sorted:
  assumes "sortEntities asc attr es idxs = Inr order"
  shows "sorted_wrt (\<lambda>i j. \<not> index_before asc attr es j i) order"
  using sortEntities_Inr[OF assms]
proof
  assume "order = std_sort (index_before asc attr es) idxs"
  then show ?thesis
    using sorted_std_sort[where lt="index_before asc attr es", OF index_before_asym index_before_trans]
    by simp
next
  assume "order = [] \<and> (es = [] \<or> idxs = [])"
  then show ?thesis by simp
qed

lemma sortEntities_mset:
  assumes "sortEntities asc attr es idxs = Inr order" and "es \<noteq> []"
  shows "mset order = mset idxs"
  using sortEntities_Inr[OF assms(1)] assms(2) by (auto simp: mset_std_sort)

lemma greedy_loop_append:
  "greedy_loop asc (xs @ ys) devs srvs =
     (case greedy_loop asc xs devs srvs of
        Inl e \<Rightarrow> Inl e
      | Inr (devs1, srvs1) \<Rightarrow> greedy_loop asc ys devs1 srvs1)"
  by (induction xs arbitrary: devs srvs) (simp_all add: Let_def split: sum.splits prod.splits)

lemma greedy_loop_split:
  assumes "greedy_loop asc (pre @ i # post) devs srvs = Inr r"
  shows "\<exists>devs1 srvs1 device' srvs2.
     greedy_loop asc pre devs srvs = Inr (devs1, srvs1) \<and>
     0 \<le> i \<and> nat i < length devs1 \<and>
     greedy_commit (std_sort (responseTime_before asc) (servers (devs1 ! nat i)))
       ((devs1 ! nat i)\<lparr>servers := std_sort (responseTime_before asc) (servers (devs1 ! nat i))\<rparr>)
       srvs1 = Inr (device', srvs2) \<and>
     greedy_loop asc post (devs1[nat i := device']) srvs2 = Inr r"
proof -
  from assms obtain devs1 srvs1 where
    pre: "greedy_loop asc pre devs srvs = Inr (devs1, srvs1)"
    and rest: "greedy_loop asc (i # post) devs1 srvs1 = Inr r"
    by (auto simp: greedy_loop_append split: sum.splits prod.splits)
  from greedy_loop_Cons_cases[OF rest] obtain device0 device' srvs2 where
    dev: "at_idx devs1 i = Inr device0" and
    gc: "greedy_commit (std_sort (responseTime_before asc) (servers device0))
       (device0\<lparr>servers := std_sort (responseTime_before asc) (servers device0)\<rparr>) srvs1
       = Inr (device', srvs2)"
    and rec: "greedy_loop asc post (devs1[nat i := device']) srvs2 = Inr r"
    by blast
  from at_idx_Inr[OF dev] pre gc rec show ?thesis by blast
qed

lemma sorted_wrt_before:
  assumes "sorted_wrt R xs" and "i \<in> set xs" and "j \<in> set xs" and "i \<noteq> j" and "\<not> R j i"
  shows "\<exists>pre mid post. xs = pre @ i # mid @ j # post"
proof -
  from split_list[OF assms(2)] obtain pre ys where xs: "xs = pre @ i # ys" by blast
  have "j \<notin> set pre"
  proof
    assume "j \<in> set pre"
    then have "R j i" using assms(1) xs by (simp add: sorted_wrt_append)
    with assms(5) show False by simp
  qed
  then have "j \<in> set ys" using assms(3,4) xs by auto
  from split_list[OF this] obtain mid post where "ys = mid @ j # post" by blast
  then show ?thesis using xs by blast
qed

lemma sortEntities_tie_order:
  assumes so: "sortEntities asc attr es idxs = Inr order" and ne: "es \<noteq> []"
    and i: "i \<in> set idxs" and j: "j \<in> set idxs" and lt: "i < j"
    and tie: "attr (es ! nat i) = attr (es ! nat j)"
  shows "\<exists>pre mid post. order = pre @ i # mid @ j # post"
proof (rule sorted_wrt_before[OF sortEntities_sorted[OF so]])
  have "set order = set idxs" using sortEntities_mset[OF so ne] by (metis set_mset_mset)
  then show "i \<in> set order" "j \<in> set order" using i j by simp_all
  show "i \<noteq> j" using lt by simp
  show "\<not> \<not> index_before asc attr es i j" using lt tie by (simp add: index_before_def)
qed

lemma greedy_loop_untouched:
  "greedy_loop asc idxs devs srvs = Inr (devs', srvs') \<Longrightarrow>
   \<forall>k \<in> set idxs. nat k \<noteq> n \<Longrightarrow> devs' ! n = devs ! n"
proof (induction idxs arbitrary: devs srvs)
  case Nil
  then show ?case by simp
next
  case (Cons d_idx rest)
  from greedy_loop_Cons_cases[OF Cons.prems(1)] obtain device' srvs1 where
    rec: "greedy_loop asc rest (devs[nat d_idx := device']) srvs1 = Inr (devs', srvs')"
    by blast
  have "devs' ! n = devs[nat d_idx := device'] ! n"
    using Cons.IH[OF rec] Cons.prems(2) by simp
  then show ?case using Cons.prems(2) by simp
qed

lemma greedy_loop_split_final:
  assumes "greedy_loop asc (pre @ i # post) devs srvs = Inr (devs', srvs')"
  shows "\<exists>devs1 srvs1 device' srvs2.
     greedy_loop asc pre devs srvs = Inr (devs1, srvs1) \<and>
     0 \<le> i \<and> nat i < length devs1 \<and>
     greedy_commit (std_sort (responseTime_before asc) (servers (devs1 ! nat i)))
       ((devs1 ! nat i)\<lparr>servers := std_sort (responseTime_before asc) (servers (devs1 ! nat i))\<rparr>)
       srvs1 = Inr (device', srvs2) \<and>
     greedy_loop asc post (devs1[nat i := device']) srvs2 = Inr (devs', srvs') \<and>
     ((\<forall>k \<in> set post. nat k \<noteq> nat i) \<longrightarrow> devs' ! nat i = device')"
proof -
  from greedy_loop_split[OF assms] obtain devs1 srvs1 device' srvs2 where
    a: "greedy_loop asc pre devs srvs = Inr (devs1, srvs1)" "0 \<le> i" "nat i < length devs1"
      "greedy_commit (std_sort (responseTime_before asc) (servers (devs1 ! nat i)))
       ((devs1 ! nat i)\<lparr>servers := std_sort (responseTime_before asc) (servers (devs1 ! nat i))\<rparr>)
       srvs1 = Inr (device', srvs2)"
    and rec: "greedy_loop asc post (devs1[nat i := device']) srvs2 = Inr (devs', srvs')"
    by blast
  have "devs' ! nat i = device'" if "\<forall>k \<in> set post. nat k \<noteq> nat i"
    using greedy_loop_untouched[OF rec that] a(3) by simp
  with a rec show ?thesis by blast
qed

text \<open>
  C7. The greedy heuristic visits the covered devices in the order \<open>sortEntities\<close>
  returns for the attribute \<open>cnd\<close>: at every position of that order, the devices before
  it have been processed when the device at it is committed by the scan of its sorted
  candidates, and the devices after it are processed from the state that commit leaves;
  unless its index occurs again later in the order, the device is in the result as
  that scan left it.
  In that order, for the ascending and for the descending flag alike, two devices of
  equal \<open>cnd\<close> stand in ascending order of their index, so of two covered devices of
  equal \<open>cnd\<close> the one with the smaller index is processed first. The order is a
  permutation of the covered-index list, and it is the only permutation sorted by the
  comparator of \<open>sort_indices_impl\<close>: whatever algorithm \<open>std::sort\<close> uses, the
  processing order is determined by the devices, the covered list and the flag.
\<close>

theorem greedy_processing_order:
  "(sortEntities sortDevicesAsc cnd devices coveredIdx = Inr order \<longrightarrow>
      sorted_wrt (\<lambda>i j. cnd (devices ! nat i) = cnd (devices ! nat j) \<longrightarrow> i \<le> j) order \<and>
      (devices \<noteq> [] \<longrightarrow> mset order = mset coveredIdx) \<and>
      (\<forall>ys. mset ys = mset order \<and>
            sorted_wrt (\<lambda>i j. \<not> index_before sortDevicesAsc cnd devices j i) ys
            \<longrightarrow> ys = order) \<and>
      (\<forall>i j. devices \<noteq> [] \<and> i \<in> set coveredIdx \<and> j \<in> set coveredIdx \<and> i < j \<and>
             cnd (devices ! nat i) = cnd (devices ! nat j)
             \<longrightarrow> (\<exists>pre mid post. order = pre @ i # mid @ j # post))) \<and>
   (greedyHeuristic st sortDevicesAsc sortServersAsc = Inr st' \<longrightarrow>
      (\<exists>visited. sortEntities sortDevicesAsc cnd (st_devices st) (coveredDevicesIdx st)
                   = Inr visited \<and>
         greedy_loop sortServersAsc visited (st_devices st) (st_servers st)
           = Inr (st_devices st', st_servers st') \<and>
         (\<forall>pre i post. visited = pre @ i # post \<longrightarrow>
            (\<exists>devs1 srvs1 device' srvs2.
               greedy_loop sortServersAsc pre (st_devices st) (st_servers st)
                 = Inr (devs1, srvs1) \<and>
               0 \<le> i \<and> nat i < length devs1 \<and>
               greedy_commit
                 (std_sort (responseTime_before sortServersAsc) (servers (devs1 ! nat i)))
                 ((devs1 ! nat i)\<lparr>servers :=
                    std_sort (responseTime_before sortServersAsc) (servers (devs1 ! nat i))\<rparr>)
                 srvs1 = Inr (device', srvs2) \<and>
               greedy_loop sortServersAsc post (devs1[nat i := device']) srvs2
                 = Inr (st_devices st', st_servers st') \<and>
               ((\<forall>k \<in> set post. nat k \<noteq> nat i) \<longrightarrow> st_devices st' ! nat i = device')))))"
proof (intro conjI impI allI)
  assume so: "sortEntities sortDevicesAsc cnd devices coveredIdx = Inr order"
  note srt = sortEntities_sorted[OF so]
  show "sorted_wrt (\<lambda>i j. cnd (devices ! nat i) = cnd (devices ! nat j) \<longrightarrow> i \<le> j) order"
    by (rule sorted_wrt_mono_rel[OF _ srt]) (auto simp: index_before_def Let_def)
  show "mset order = mset coveredIdx" if "devices \<noteq> []"
    using sortEntities_mset[OF so that] .
  show "ys = order"
    if "mset ys = mset order \<and>
        sorted_wrt (\<lambda>i j. \<not> index_before sortDevicesAsc cnd devices j i) ys" for ys
  proof (rule sorted_by_unique[where le="\<lambda>i j. \<not> index_before sortDevicesAsc cnd devices j i"])
    show "\<And>a b. \<not> index_before sortDevicesAsc cnd devices b a \<Longrightarrow>
            \<not> index_before sortDevicesAsc cnd devices a b \<Longrightarrow> a = b"
      by (rule index_before_antisym)
  qed (use that srt in simp_all)
  show "\<exists>pre mid post. order = pre @ i # mid @ j # post"
    if "devices \<noteq> [] \<and> i \<in> set coveredIdx \<and> j \<in> set coveredIdx \<and> i < j \<and>
        cnd (devices ! nat i) = cnd (devices ! nat j)" for i j
    using sortEntities_tie_order[OF so] that by blast
next
  assume run: "greedyHeuristic st sortDevicesAsc sortServersAsc = Inr st'"
  from greedyHeuristic_Inr(1)[OF run] obtain visited where
    so: "sortEntities sortDevicesAsc cnd (st_devices st) (coveredDevicesIdx st) = Inr visited"
    and loop: "greedy_loop sortServersAsc visited (st_devices st) (st_servers st)
           = Inr (st_devices st', st_servers st')" by blast
  have "\<exists>devs1 srvs1 device' srvs2.
               greedy_loop sortServersAsc pre (st_devices st) (st_servers st)
                 = Inr (devs1, srvs1) \<and>
               0 \<le> i \<and> nat i < length devs1 \<and>
               greedy_commit
                 (std_sort (responseTime_before sortServersAsc) (servers (devs1 ! nat i)))
                 ((devs1 ! nat i)\<lparr>servers :=
                    std_sort (responseTime_before sortServersAsc) (servers (devs1 ! nat i))\<rparr>)
                 srvs1 = Inr (device', srvs2) \<and>
               greedy_loop sortServersAsc post (devs1[nat i := device']) srvs2
                 = Inr (st_devices st', st_servers st') \<and>
               ((\<forall>k \<in> set post. nat k \<noteq> nat i) \<longrightarrow> st_devices st' ! nat i = device')"
    if "visited = pre @ i # post" for pre i post
    using greedy_loop_split_final[of sortServersAsc pre i post] loop that by simp
  with so loop show "\<exists>visited. sortEntities sortDevicesAsc cnd (st_devices st) (coveredDevicesIdx st)
                   = Inr visited \<and>
         greedy_loop sortServersAsc visited (st_devices st) (st_servers st)
           = Inr (st_devices st', st_servers st') \<and>
         (\<forall>pre i post. visited = pre @ i # post \<longrightarrow>
            (\<exists>devs1 srvs1 device' srvs2.
               greedy_loop sortServersAsc pre (st_devices st) (st_servers st)
                 = Inr (devs1, srvs1) \<and>
               0 \<le> i \<and> nat i < length devs1 \<and>
               greedy_commit
                 (std_sort (responseTime_before sortServersAsc) (servers (devs1 ! nat i)))
                 ((devs1 ! nat i)\<lparr>servers :=
                    std_sort (responseTime_before sortServersAsc) (servers (devs1 ! nat i))\<rparr>)
                 srvs1 = Inr (device', srvs2) \<and>
               greedy_loop sortServersAsc post (devs1[nat i := device']) srvs2
                 = Inr (st_devices st', st_servers st') \<and>
               ((\<forall>k \<in> set post. nat k \<noteq> nat i) \<longrightarrow> st_devices st' ! nat i = device')))"
    by blast
qed

lemma ex_sort_asc: "sortEntities True cnd ex_tie_devices [3, 2, 1] = Inr [1, 2, 3]"
  by (simp add: sortEntities_def sort_indices_impl_def std_sort_def index_before_def ex_defs)

lemma ex_sort_desc: "sortEntities False cnd ex_tie_devices [3, 2, 1] = Inr [3, 1, 2]"
  by (simp add: sortEntities_def sort_indices_impl_def std_sort_def index_before_def ex_defs)

lemma ex_tie_sort_asc:
  "sortEntities True cnd (st_devices ex_tie) (coveredDevicesIdx ex_tie) = Inr [1, 2, 3]"
  by (simp add: sortEntities_def sort_indices_impl_def std_sort_def index_before_def ex_defs)

lemma ex_tie_sort_desc:
  "sortEntities False cnd (st_devices ex_tie) (coveredDevicesIdx ex_tie) = Inr [3, 1, 2]"
  by (simp add: sortEntities_def sort_indices_impl_def std_sort_def index_before_def ex_defs)

lemma ex_tie_greedy_asc:
  "\<exists>st'. greedyHeuristic ex_tie True True = Inr st' \<and>
         map served (st_devices st') = [False, True, True, False] \<and>
         devices_served (srv_supply (st_servers st' ! 1)) = {1, 2}"
  by (simp add: greedyHeuristic_def sortEntities_def sort_indices_impl_def std_sort_def
      index_before_def responseTime_before_def ex_defs op_defs insert_commute)

lemma ex_tie_greedy_desc:
  "\<exists>st'. greedyHeuristic ex_tie False True = Inr st' \<and>
         map served (st_devices st') = [False, True, False, True] \<and>
         devices_served (srv_supply (st_servers st' ! 1)) = {1, 3}"
  by (simp add: greedyHeuristic_def sortEntities_def sort_indices_impl_def std_sort_def
      index_before_def responseTime_before_def ex_defs op_defs insert_commute)

theorem greedy_processing_order_witness:
  "cnd (st_devices ex_tie ! nat 1) = cnd (st_devices ex_tie ! nat 2) \<and>
   st_devices ex_tie \<noteq> [] \<and> (1::int) \<in> set (coveredDevicesIdx ex_tie) \<and>
   (2::int) \<in> set (coveredDevicesIdx ex_tie) \<and>
   sortEntities True cnd (st_devices ex_tie) (coveredDevicesIdx ex_tie) = Inr [1, 2, 3] \<and>
   sortEntities False cnd (st_devices ex_tie) (coveredDevicesIdx ex_tie) = Inr [3, 1, 2] \<and>
   sorted_wrt (\<lambda>i j. cnd (st_devices ex_tie ! nat i) = cnd (st_devices ex_tie ! nat j) \<longrightarrow> i \<le> j)
     [1, 2, 3] \<and>
   sorted_wrt (\<lambda>i j. cnd (st_devices ex_tie ! nat i) = cnd (st_devices ex_tie ! nat j) \<longrightarrow> i \<le> j)
     [3, 1, 2] \<and>
   mset [3, 1, 2] = mset (coveredDevicesIdx ex_tie) \<and>
   sortEntities True cnd ex_tie_devices [3, 2, 1] = Inr [1, 2, 3] \<and>
   sortEntities False cnd ex_tie_devices [3, 2, 1] = Inr [3, 1, 2] \<and>
   (\<exists>pre mid post. [1, 2, 3] = pre @ (1::int) # mid @ 2 # post) \<and>
   (\<exists>pre mid post. [3, 1, 2] = pre @ (1::int) # mid @ 2 # post) \<and>
   \<not> isl (greedyHeuristic ex_tie True True) \<and>
   map served (st_devices (projr (greedyHeuristic ex_tie True True)))
     = [False, True, True, False] \<and>
   \<not> isl (greedyHeuristic ex_tie False True) \<and>
   map served (st_devices (projr (greedyHeuristic ex_tie False True)))
     = [False, True, False, True] \<and>
   (\<exists>devs1 srvs1 device' srvs2.
      greedy_loop True [3] (st_devices ex_tie) (st_servers ex_tie) = Inr (devs1, srvs1) \<and>
      0 \<le> (1::int) \<and> nat 1 < length devs1 \<and>
      greedy_commit (std_sort (responseTime_before True) (servers (devs1 ! nat 1)))
        ((devs1 ! nat 1)\<lparr>servers :=
           std_sort (responseTime_before True) (servers (devs1 ! nat 1))\<rparr>) srvs1
        = Inr (device', srvs2) \<and>
      greedy_loop True [2] (devs1[nat 1 := device']) srvs2
        = Inr (st_devices (projr (greedyHeuristic ex_tie False True)),
               st_servers (projr (greedyHeuristic ex_tie False True))) \<and>
      st_devices (projr (greedyHeuristic ex_tie False True)) ! nat 1 = device')"
proof -
  note sorted = greedy_processing_order[THEN conjunct1, THEN mp]
  have ne: "st_devices ex_tie \<noteq> []" by (simp add: ex_defs)
  have tie: "cnd (st_devices ex_tie ! nat 1) = cnd (st_devices ex_tie ! nat 2)"
    by (simp add: ex_defs)
  have mem: "(1::int) \<in> set (coveredDevicesIdx ex_tie)" "(2::int) \<in> set (coveredDevicesIdx ex_tie)"
    by (simp_all add: ex_defs)
  have pair: "st_devices ex_tie \<noteq> [] \<and> (1::int) \<in> set (coveredDevicesIdx ex_tie) \<and>
      (2::int) \<in> set (coveredDevicesIdx ex_tie) \<and> (1::int) < 2 \<and>
      cnd (st_devices ex_tie ! nat 1) = cnd (st_devices ex_tie ! nat 2)"
    using ne tie mem by simp
  note asc = sorted[OF ex_tie_sort_asc]
  note desc = sorted[OF ex_tie_sort_desc]
  note asc_pair = asc[THEN conjunct2, THEN conjunct2, THEN conjunct2, THEN spec, THEN spec,
      THEN mp, OF pair]
  note desc_pair = desc[THEN conjunct2, THEN conjunct2, THEN conjunct2, THEN spec, THEN spec,
      THEN mp, OF pair]
  from ex_tie_greedy_asc have
    ra: "greedyHeuristic ex_tie True True = Inr (projr (greedyHeuristic ex_tie True True))"
    and sa: "map served (st_devices (projr (greedyHeuristic ex_tie True True)))
       = [False, True, True, False]" by auto
  from ex_tie_greedy_desc have
    rd: "greedyHeuristic ex_tie False True = Inr (projr (greedyHeuristic ex_tie False True))"
    and sd: "map served (st_devices (projr (greedyHeuristic ex_tie False True)))
       = [False, True, False, True]" by auto
  have la: "\<not> isl (greedyHeuristic ex_tie True True)" by (subst ra) simp
  have ld: "\<not> isl (greedyHeuristic ex_tie False True)" by (subst rd) simp
  from greedy_processing_order[THEN conjunct2, THEN mp, OF rd] obtain visited where
    v: "sortEntities False cnd (st_devices ex_tie) (coveredDevicesIdx ex_tie) = Inr visited"
    and dec: "\<forall>pre i post. visited = pre @ i # post \<longrightarrow>
            (\<exists>devs1 srvs1 device' srvs2.
               greedy_loop True pre (st_devices ex_tie) (st_servers ex_tie)
                 = Inr (devs1, srvs1) \<and>
               0 \<le> i \<and> nat i < length devs1 \<and>
               greedy_commit
                 (std_sort (responseTime_before True) (servers (devs1 ! nat i)))
                 ((devs1 ! nat i)\<lparr>servers :=
                    std_sort (responseTime_before True) (servers (devs1 ! nat i))\<rparr>)
                 srvs1 = Inr (device', srvs2) \<and>
               greedy_loop True post (devs1[nat i := device']) srvs2
                 = Inr (st_devices (projr (greedyHeuristic ex_tie False True)),
                        st_servers (projr (greedyHeuristic ex_tie False True))) \<and>
               ((\<forall>k \<in> set post. nat k \<noteq> nat i) \<longrightarrow>
                  st_devices (projr (greedyHeuristic ex_tie False True)) ! nat i = device'))"
    by blast
  have "visited = [3] @ 1 # [2]" using v ex_tie_sort_desc by simp
  from dec[THEN spec, THEN spec, THEN spec, THEN mp, OF this]
  have split: "\<exists>devs1 srvs1 device' srvs2.
      greedy_loop True [3] (st_devices ex_tie) (st_servers ex_tie) = Inr (devs1, srvs1) \<and>
      0 \<le> (1::int) \<and> nat 1 < length devs1 \<and>
      greedy_commit (std_sort (responseTime_before True) (servers (devs1 ! nat 1)))
        ((devs1 ! nat 1)\<lparr>servers :=
           std_sort (responseTime_before True) (servers (devs1 ! nat 1))\<rparr>) srvs1
        = Inr (device', srvs2) \<and>
      greedy_loop True [2] (devs1[nat 1 := device']) srvs2
        = Inr (st_devices (projr (greedyHeuristic ex_tie False True)),
               st_servers (projr (greedyHeuristic ex_tie False True))) \<and>
      st_devices (projr (greedyHeuristic ex_tie False True)) ! nat 1 = device'"
    by auto
  show ?thesis
    using tie ne mem ex_tie_sort_asc ex_tie_sort_desc ex_sort_asc ex_sort_desc
      asc[THEN conjunct1] desc[THEN conjunct1]
      desc[THEN conjunct2, THEN conjunct1, THEN mp, OF ne] asc_pair desc_pair la sa ld sd split
    by (intro conjI) blast+
qed

section \<open>Coverage\<close>

lemma cover_edge_fields:
  "servers (cover_edge geo srvs r j device) = servers device @
     (if srv_type (srvs ! j) = CHR ''E'' \<and> calculateDistance_ds geo device (srvs ! j) \<le> r
      then [server_covering2 (int j) (calculateDistance_ds geo device (srvs ! j))] else [])"
  "covered (cover_edge geo srvs r j device) \<longleftrightarrow> covered device \<or>
     (srv_type (srvs ! j) = CHR ''E'' \<and> calculateDistance_ds geo device (srvs ! j) \<le> r)"
  "calculateDistance_ds geo (cover_edge geo srvs r j device) s = calculateDistance_ds geo device s"
  "cnd (cover_edge geo srvs r j device) = cnd device"
  "dev_id (cover_edge geo srvs r j device) = dev_id device"
  by (simp_all add: cover_edge_def calculateDistance_ds_def)

lemma fold_cover_edge_static:
  "calculateDistance_ds geo (fold (cover_edge geo srvs r) js device) s
     = calculateDistance_ds geo device s"
  "cnd (fold (cover_edge geo srvs r) js device) = cnd device"
  "dev_id (fold (cover_edge geo srvs r) js device) = dev_id device"
  by (induction js arbitrary: device) (simp_all add: cover_edge_fields)



lemma cover_cloud_fields:
  "servers (cover_cloud srvs j device) = servers device @
     (if srv_type (srvs ! j) = CHR ''C'' then [server_covering1 (int j)] else [])"
  "covered (cover_cloud srvs j device) = covered device"
  "cnd (cover_cloud srvs j device) = cnd device"
  "dev_id (cover_cloud srvs j device) = dev_id device"
  by (simp_all add: cover_cloud_def)

lemma fold_cover_cloud_static:
  "covered (fold (cover_cloud srvs) js device) = covered device"
  "cnd (fold (cover_cloud srvs) js device) = cnd device"
  "dev_id (fold (cover_cloud srvs) js device) = dev_id device"
  by (induction js arbitrary: device) (simp_all add: cover_cloud_fields)





lemma cover_device_eq:
  "cover_device geo srvs r i (devs, ids, m) =
     (devs[i := cover_one geo srvs r (devs ! i)],
      if covered (cover_one geo srvs r (devs ! i)) then ids @ [dev_id (devs ! i)] else ids,
      if covered (cover_one geo srvs r (devs ! i)) then m
      else m\<lparr>cost_of_non_coverage := cost_of_non_coverage m + cnd (devs ! i)\<rparr>)"
  by (simp add: cover_device_def cover_one_def Let_def fold_cover_edge_static
      fold_cover_cloud_static)









section \<open>Configuration errors of the pre-calculation\<close>

lemma pre_calculation_counts:
  "numDevices \<le> 0 \<or> numServersEC \<le> 0 \<or> numServersCC \<le> 0 \<Longrightarrow>
     pre_calculation geo loadDevices loadServers simulation algorithm numDevices numServersEC
       numServersCC tech = Inr None"
  by (simp add: pre_calculation_def)

lemma techParams_unknown: "\<not> (1 \<le> tech \<and> tech \<le> 6) \<Longrightarrow> techParams tech = (- 1, - 1)"
  by (auto simp: techParams_def)

lemma pre_calculation_unknown_tech:
  assumes "0 < numDevices" "0 < numServersEC" "0 < numServersCC" "\<not> (1 \<le> tech \<and> tech \<le> 6)"
    and "loadDevices numDevices \<noteq> []" "loadServers numServersEC numServersCC \<noteq> []"
  shows "pre_calculation geo loadDevices loadServers simulation algorithm numDevices
       numServersEC numServersCC tech =
     Inr (Some \<lparr>st_devices = loadDevices numDevices,
                st_servers = loadServers numServersEC numServersCC,
                coveredDevicesIdx = [],
                metrics = mkMetrics simulation algorithm numDevices numServersEC numServersCC
                            tech\<rparr>)"
  using assms
  by (simp add: pre_calculation_def coverage_def Let_def techParams_unknown mkMetrics_def)

text \<open>
  C3, evaluated at technology id 7 with positive counts and loadable data (the devices
  and servers of \<open>ex_loaded_devices\<close> and \<open>ex_loaded_servers\<close>). \<open>coverage\<close> reports the
  unknown technology and returns an empty covered list, and \<open>pre_calculation\<close> wraps it
  into a run state: the result is a state, not \<open>nullopt\<close>, with the devices and servers
  as loaded (no bandwidth, no candidate links) and no covered device. A non-positive
  count does give \<open>nullopt\<close>.
\<close>

theorem pre_calculation_unknown_tech_returns_state:
  "pre_calculation ex_geo (\<lambda>n. ex_loaded_devices) (\<lambda>ec cc. ex_loaded_servers)
     ''Heuristic'' ''Random'' 2 1 1 7 =
     Inr (Some \<lparr>st_devices = ex_loaded_devices, st_servers = ex_loaded_servers,
                coveredDevicesIdx = [],
                metrics = mkMetrics ''Heuristic'' ''Random'' 2 1 1 7\<rparr>) \<and>
   techParams 7 = (- 1, - 1) \<and>
   pre_calculation ex_geo (\<lambda>n. ex_loaded_devices) (\<lambda>ec cc. ex_loaded_servers)
     ''Heuristic'' ''Random'' 0 1 1 4 = Inr None"
  by (simp add: pre_calculation_unknown_tech pre_calculation_counts techParams_def
      ex_loaded_devices_def ex_loaded_servers_def)


text \<open>
  For comparison, the same data under technology 4 (radius 3 km, 100 Mbps): device 1 is
  covered, with the edge and the cloud server as candidates and their response times
  in ms, and device 2 adds its \<open>cnd\<close> to the non-coverage cost.
\<close>

lemma ex_pre_calculation_4g:
  "\<exists>st. pre_calculation ex_geo (\<lambda>n. ex_loaded_devices) (\<lambda>ec cc. ex_loaded_servers)
          ''Heuristic'' ''Random'' 2 1 1 4 = Inr (Some st) \<and>
        coveredDevicesIdx st = [1] \<and>
        map cov_id (servers (st_devices st ! 1)) = [1, 2] \<and>
        map responseTime (servers (st_devices st ! 1))
          = [1650308519 / 149896229, 920885034747 / 7494811450] \<and>
        cost_of_non_coverage (metrics st) = 7"
  by (simp add: pre_calculation_def coverage_def bandwidth_def findCovering_def
      cover_device_def cover_edge_def cover_cloud_def timeCalculation_def techParams_def
      calculateDistance_ds_def calculateDistance_ss_def at_idx_def Let_def
      EARTH_RADIUS_KM_def SPEED_OF_LIGHT_def INTER_DC_LATENCY_MS_def ex_defs upt_rec)

subsection \<open>Pre-calculated states\<close>

lemma list_all_update_nth:
  "list_all P xs \<Longrightarrow> (i < length xs \<Longrightarrow> P y) \<Longrightarrow> list_all P (xs[i := y])"
  by (cases "i < length xs") (simp_all add: list_all_update list_update_beyond)

lemma fold_update_all:
  assumes "\<And>x. P x \<Longrightarrow> P (f x)"
  shows "list_all P xs \<Longrightarrow> list_all P (fold (\<lambda>i ys. ys[i := f (ys ! i)]) is xs)"
proof (induction "is" arbitrary: xs)
  case Nil
  then show ?case by simp
next
  case (Cons i rest)
  have "list_all P (xs[i := f (xs ! i)])"
    using Cons.prems assms by (intro list_all_update_nth) (simp_all add: list_all_length)
  then show ?case using Cons.IH by simp
qed

lemma bandwidth_servers:
  assumes "list_all fresh_server srvs"
  shows "list_all fresh_server (snd (bandwidth devs srvs rate))"
  unfolding bandwidth_def snd_conv
  by (rule fold_update_all[OF _ assms]) (simp add: fresh_server_def)

lemma bandwidth_devices:
  assumes "list_all nonneg_demand devs" and "0 \<le> rate"
  shows "list_all nonneg_demand (fst (bandwidth devs srvs rate))"
  unfolding bandwidth_def fst_conv
  by (rule fold_update_all[OF _ assms(1)]) (simp add: nonneg_demand_def assms(2))

lemma fresh_server_capacity: "fresh_server s \<Longrightarrow> capacity_ok s"
  by (simp add: fresh_server_def capacity_ok_def server_supply0_def)

lemma fresh_server_active_base: "fresh_server s \<Longrightarrow> \<not> srv_on s \<Longrightarrow> active_ok s"
  by (simp add: fresh_server_def active_ok_def server_supply0_def)

lemma nonneg_demand_links [simp]:
  "nonneg_demand (device\<lparr>servers := l\<rparr>) = nonneg_demand device"
  "nonneg_demand (device\<lparr>covered := b\<rparr>) = nonneg_demand device"
  by (simp_all add: nonneg_demand_def)

lemma cover_edge_nonneg: "nonneg_demand (cover_edge geo srvs r j device) = nonneg_demand device"
  by (simp add: cover_edge_def)

lemma cover_cloud_nonneg: "nonneg_demand (cover_cloud srvs j device) = nonneg_demand device"
  by (simp add: cover_cloud_def)

lemma cover_one_nonneg: "nonneg_demand (cover_one geo srvs r device) = nonneg_demand device"
proof -
  have e: "nonneg_demand (fold (cover_edge geo srvs r) js d) = nonneg_demand d" for js d
    by (induction js arbitrary: d) (simp_all add: cover_edge_nonneg)
  have c: "nonneg_demand (fold (cover_cloud srvs) js d) = nonneg_demand d" for js d
    by (induction js arbitrary: d) (simp_all add: cover_cloud_nonneg)
  show ?thesis by (simp add: cover_one_def Let_def e c)
qed

lemma fold_cover_device_nonneg:
  "list_all nonneg_demand devs \<Longrightarrow>
   fold (cover_device geo srvs r) is (devs, ids, m) = (devs', ids', m') \<Longrightarrow>
   list_all nonneg_demand devs'"
proof (induction "is" arbitrary: devs ids m)
  case Nil
  then show ?case by simp
next
  case (Cons i rest)
  have "list_all nonneg_demand (devs[i := cover_one geo srvs r (devs ! i)])"
    using Cons.prems(1)
    by (intro list_all_update_nth) (simp_all add: cover_one_nonneg list_all_length)
  then show ?case using Cons.IH Cons.prems(2) by (simp add: cover_device_eq)
qed

lemma findCovering_nonneg:
  assumes "list_all nonneg_demand devs"
    and "findCovering geo devs srvs r m = (devs', ids, m')"
  shows "list_all nonneg_demand devs'"
proof -
  obtain ids1 m1 where
    "fold (cover_device geo srvs r) [1..<length devs] (devs, [], m) = (devs', ids1, m1)"
    using assms(2) by (auto simp: findCovering_def split: prod.splits)
  with assms(1) show ?thesis by (rule fold_cover_device_nonneg)
qed

lemma time_devices_nonneg:
  "list_all nonneg_demand devs \<Longrightarrow> time_devices geo srvs is devs = Inr devs' \<Longrightarrow>
   list_all nonneg_demand devs'"
proof (induction "is" arbitrary: devs)
  case Nil
  then show ?case by simp
next
  case (Cons i rest)
  show ?case
  proof (cases "covered (devs ! i)")
    case False
    with Cons show ?thesis by (simp add: Let_def)
  next
    case True
    with Cons.prems(2) obtain links where
      rec: "time_devices geo srvs rest (devs[i := (devs ! i)\<lparr>servers := links\<rparr>]) = Inr devs'"
      by (auto simp: Let_def split: sum.splits)
    have "list_all nonneg_demand (devs[i := (devs ! i)\<lparr>servers := links\<rparr>])"
      using Cons.prems(1) by (intro list_all_update_nth) (simp_all add: list_all_length)
    then show ?thesis using rec by (rule Cons.IH)
  qed
qed

lemma techParams_rate: "0 \<le> snd (techParams tech) \<or> fst (techParams tech) < 0"
  by (simp add: techParams_def)

lemma dev_frame_perm_nonneg: "dev_frame_perm d d' \<Longrightarrow> nonneg_demand d \<Longrightarrow> nonneg_demand d'"
  by (cases d, cases d') (auto simp: dev_frame_perm_def nonneg_demand_def)

lemma devs_frame_perm_nonneg:
  assumes "list_all2 dev_frame_perm devs devs'" and "list_all nonneg_demand devs"
  shows "list_all nonneg_demand devs'"
  unfolding list_all_length
proof (intro allI impI)
  fix n assume n: "n < length devs'"
  have len: "length devs = length devs'" using assms(1) by (rule list_all2_lengthD)
  have "dev_frame_perm (devs ! n) (devs' ! n)" using assms(1) n len by (simp add: list_all2_nthD)
  moreover have "nonneg_demand (devs ! n)" using assms(2) n len by (simp add: list_all_length)
  ultimately show "nonneg_demand (devs' ! n)" by (rule dev_frame_perm_nonneg)
qed

subsection \<open>Pre-calculation and the active flag\<close>

lemma coverage_servers:
  assumes "coverage geo devs srvs m = Inr (devs', srvs', ids, m')"
  shows "srvs' = srvs \<or> srvs' = snd (bandwidth devs srvs (snd (techParams (in_tech m))))"
  using assms by (auto simp: coverage_def Let_def split: if_splits prod.splits sum.splits)

lemma bandwidth_active:
  assumes "list_all active_ok srvs"
  shows "list_all active_ok (snd (bandwidth devs srvs rate))"
  unfolding bandwidth_def snd_conv
  by (rule fold_update_all[OF _ assms]) (simp add: active_ok_def)

lemma pre_calculation_active:
  assumes "list_all active_ok (loadServers numServersEC numServersCC) \<and>
     pre_calculation geo loadDevices loadServers simulation algorithm numDevices
       numServersEC numServersCC tech = Inr (Some st)"
  shows "list_all active_ok (st_servers st)"
proof -
  from assms obtain devs' srvs' ids m' where
    c: "coverage geo (loadDevices numDevices) (loadServers numServersEC numServersCC)
          (mkMetrics simulation algorithm numDevices numServersEC numServersCC tech)
        = Inr (devs', srvs', ids, m')"
    and st: "st_servers st = srvs'"
    by (auto simp: pre_calculation_def Let_def split: if_splits sum.splits prod.splits)
  from coverage_servers[OF c] assms bandwidth_active show ?thesis
    unfolding st by blast
qed

section \<open>Capacity invariant\<close>

lemmas pre_defs = pre_calculation_def coverage_def bandwidth_def findCovering_def
  cover_device_def cover_edge_def cover_cloud_def timeCalculation_def techParams_def
  calculateDistance_ds_def calculateDistance_ss_def
  EARTH_RADIUS_KM_def SPEED_OF_LIGHT_def INTER_DC_LATENCY_MS_def upt_rec

lemmas greedy_defs = greedyHeuristic_def sortEntities_def sort_indices_impl_def std_sort_def
  index_before_def responseTime_before_def

lemma ex_negative_capacity:
  "\<exists>st0 st1 st2.
     pre_calculation ex_geo (\<lambda>n. ex_loaded_devices) (\<lambda>ec cc. ex_negative_servers)
       ''Heuristic'' ''Greedy_AscAsc'' 2 1 1 4 = Inr (Some st0) \<and>
     greedyHeuristic st0 True True = Inr st1 \<and>
     randomHeuristic [] (\<lambda>k. 0) st0 = Inr st2 \<and>
     memD (srv_supply (st_servers st0 ! 1)) = 0 \<and> srv_mem (st_servers st0 ! 1) = - 1 \<and>
     memD (srv_supply (st_servers st1 ! 1)) = 0 \<and> srv_mem (st_servers st1 ! 1) = - 1 \<and>
     memD (srv_supply (st_servers st2 ! 1)) = 0 \<and> srv_mem (st_servers st2 ! 1) = - 1 \<and>
     \<not> list_all capacity_ok (st_servers st0) \<and>
     \<not> list_all capacity_ok (st_servers st1) \<and>
     \<not> list_all capacity_ok (st_servers st2)"
  by (simp add: pre_defs greedy_defs randomHeuristic_def capacity_ok_def ex_defs op_defs)


lemma upto_0_2: "[0..2::int] = [0, 1, 2]"
  by (simp add: upto_rec1)

lemma ex_negative_demand:
  "\<exists>st0 st1 devs' srvs' cns' csu'.
     pre_calculation ex_geo (\<lambda>n. ex_refund_devices) (\<lambda>ec cc. ex_refund_servers)
       ''MetaHeuristic'' ''SA'' 2 2 1 4 = Inr (Some st0) \<and>
     list_all capacity_ok (st_servers st0) \<and>
     greedyHeuristic st0 True True = Inr st1 \<and>
     map served (st_devices st1) = [False, True, True] \<and>
     map (cov_id \<circ> server) (st_devices st1) = [0, 1, 1] \<and>
     memD (srv_supply (st_servers st1 ! 1)) = 7 \<and>
     list_all capacity_ok (st_servers st1) \<and>
     generateNeighbor (st_devices st1) (st_servers st1) (coveredDevicesIdx st1)
       (cost_of_non_service (metrics st1)) (cost_of_servers_used (metrics st1)) ex_draw
       = Inr (devs', srvs', cns', csu') \<and>
     map (cov_id \<circ> server) devs' = [0, 2, 1] \<and>
     memD (srv_supply (srvs' ! 1)) = 12 \<and> srv_mem (srvs' ! 1) = 8 \<and>
     \<not> list_all capacity_ok srvs'"
  by (simp add: pre_defs greedy_defs capacity_ok_def ex_defs op_defs upto_0_2)


lemma ex_negative_demand_search:
  "\<exists>st0 st1 sa.
     pre_calculation ex_geo (\<lambda>n. ex_refund_devices) (\<lambda>ec cc. ex_refund_servers)
       ''MetaHeuristic'' ''SA'' 2 2 1 4 = Inr (Some st0) \<and>
     greedyHeuristic st0 True True = Inr st1 \<and>
     sa_iteration (coveredDevicesIdx st1) 1 ex_draw (sa_init st1) = Inr (False, sa) \<and>
     memD (srv_supply (currentServers sa ! 1)) = 12 \<and> srv_mem (currentServers sa ! 1) = 8 \<and>
     \<not> list_all capacity_ok (currentServers sa)"
  by (simp add: pre_defs greedy_defs capacity_ok_def ex_defs op_defs upto_0_2)


lemma coverage_capacity:
  assumes "list_all fresh_server srvs"
    and "coverage geo devs srvs m = Inr (devs', srvs', ids, m')"
  shows "list_all capacity_ok srvs'"
proof -
  have "list_all fresh_server srvs'"
    using coverage_servers[OF assms(2)] assms(1) bandwidth_servers by auto
  then show ?thesis by (auto simp: list_all_iff intro: fresh_server_capacity)
qed

lemma coverage_nonneg:
  assumes "list_all nonneg_demand devs"
    and "coverage geo devs srvs m = Inr (devs', srvs', ids, m')"
  shows "list_all nonneg_demand devs'"
proof (cases "fst (techParams (in_tech m)) < 0")
  case True
  then have "devs' = devs" using assms(2) by (simp add: coverage_def Let_def)
  then show ?thesis using assms(1) by simp
next
  case False
  let ?rate = "snd (techParams (in_tech m))"
  let ?devs1 = "fst (bandwidth devs srvs ?rate)"
  let ?srvs1 = "snd (bandwidth devs srvs ?rate)"
  have rate: "0 \<le> ?rate" using False techParams_rate[of "in_tech m"] by simp
  obtain devs2 ids2 m2 where
    fc: "findCovering geo ?devs1 ?srvs1 (fst (techParams (in_tech m))) m = (devs2, ids2, m2)"
    by (metis prod_cases3)
  have res: "timeCalculation geo devs2 ?srvs1 = Inr devs'"
    using assms(2) False fc by (auto simp: coverage_def Let_def split: prod.splits sum.splits)
  have "list_all nonneg_demand ?devs1" using assms(1) rate by (rule bandwidth_devices)
  then have "list_all nonneg_demand devs2" using fc by (rule findCovering_nonneg)
  then show "list_all nonneg_demand devs'"
    using res unfolding timeCalculation_def by (rule time_devices_nonneg)
qed

lemma pre_calculation_coverage:
  assumes "pre_calculation geo loadDevices loadServers simulation algorithm numDevices
           numServersEC numServersCC tech = Inr (Some st)"
  shows "\<exists>ids m'. coverage geo (loadDevices numDevices) (loadServers numServersEC numServersCC)
          (mkMetrics simulation algorithm numDevices numServersEC numServersCC tech)
        = Inr (st_devices st, st_servers st, ids, m')"
  using assms
  by (auto simp: pre_calculation_def Let_def split: if_splits sum.splits prod.splits)

lemma pre_calculation_within_capacity:
  assumes "list_all fresh_server (loadServers numServersEC numServersCC)"
    and "pre_calculation geo loadDevices loadServers simulation algorithm numDevices
           numServersEC numServersCC tech = Inr (Some st)"
  shows "list_all capacity_ok (st_servers st)"
  using pre_calculation_coverage[OF assms(2)] coverage_capacity[OF assms(1)] by blast

lemma pre_calculation_demands:
  assumes "list_all nonneg_demand (loadDevices numDevices)"
    and "pre_calculation geo loadDevices loadServers simulation algorithm numDevices
           numServersEC numServersCC tech = Inr (Some st)"
  shows "list_all nonneg_demand (st_devices st)"
  using pre_calculation_coverage[OF assms(2)] coverage_nonneg[OF assms(1)] by blast

text \<open>
  C1 as stated fails on loaded data with a negative capacity or a negative demand; the
  loaders accept both. With an edge server of memory capacity \<open>-1\<close>, the server's
  accumulated memory demand 0 exceeds its capacity in the pre-calculated state and after
  the greedy and the random heuristic. With devices of memory demand \<open>-5\<close> and 12 at two
  edge servers of memory capacity 8, the greedy heuristic commits both devices to server
  1 (accumulated memory 7); the neighbour step then moves device 1 to server 2, and its
  release raises the accumulated memory of server 1 to 12, above the capacity 8. That
  neighbour becomes the current solution of the annealing search.
\<close>

theorem capacity_exceeded_with_negative_values:
  "(\<exists>st0 st1 st2.
      pre_calculation ex_geo (\<lambda>n. ex_loaded_devices) (\<lambda>ec cc. ex_negative_servers)
        ''Heuristic'' ''Greedy_AscAsc'' 2 1 1 4 = Inr (Some st0) \<and>
      greedyHeuristic st0 True True = Inr st1 \<and>
      randomHeuristic [] (\<lambda>k. 0) st0 = Inr st2 \<and>
      memD (srv_supply (st_servers st0 ! 1)) = 0 \<and> srv_mem (st_servers st0 ! 1) = - 1 \<and>
      memD (srv_supply (st_servers st1 ! 1)) = 0 \<and> srv_mem (st_servers st1 ! 1) = - 1 \<and>
      memD (srv_supply (st_servers st2 ! 1)) = 0 \<and> srv_mem (st_servers st2 ! 1) = - 1 \<and>
      \<not> list_all capacity_ok (st_servers st0) \<and>
      \<not> list_all capacity_ok (st_servers st1) \<and>
      \<not> list_all capacity_ok (st_servers st2)) \<and>
   (\<exists>st0 st1 devs' srvs' cns' csu'.
      pre_calculation ex_geo (\<lambda>n. ex_refund_devices) (\<lambda>ec cc. ex_refund_servers)
        ''MetaHeuristic'' ''SA'' 2 2 1 4 = Inr (Some st0) \<and>
      list_all capacity_ok (st_servers st0) \<and>
      greedyHeuristic st0 True True = Inr st1 \<and>
      map served (st_devices st1) = [False, True, True] \<and>
      map (cov_id \<circ> server) (st_devices st1) = [0, 1, 1] \<and>
      memD (srv_supply (st_servers st1 ! 1)) = 7 \<and>
      list_all capacity_ok (st_servers st1) \<and>
      generateNeighbor (st_devices st1) (st_servers st1) (coveredDevicesIdx st1)
        (cost_of_non_service (metrics st1)) (cost_of_servers_used (metrics st1)) ex_draw
        = Inr (devs', srvs', cns', csu') \<and>
      map (cov_id \<circ> server) devs' = [0, 2, 1] \<and>
      memD (srv_supply (srvs' ! 1)) = 12 \<and> srv_mem (srvs' ! 1) = 8 \<and>
      \<not> list_all capacity_ok srvs') \<and>
   (\<exists>st0 st1 sa.
      pre_calculation ex_geo (\<lambda>n. ex_refund_devices) (\<lambda>ec cc. ex_refund_servers)
        ''MetaHeuristic'' ''SA'' 2 2 1 4 = Inr (Some st0) \<and>
      greedyHeuristic st0 True True = Inr st1 \<and>
      sa_iteration (coveredDevicesIdx st1) 1 ex_draw (sa_init st1) = Inr (False, sa) \<and>
      memD (srv_supply (currentServers sa ! 1)) = 12 \<and> srv_mem (currentServers sa ! 1) = 8 \<and>
      \<not> list_all capacity_ok (currentServers sa))"
  by (intro conjI) (rule ex_negative_capacity ex_negative_demand ex_negative_demand_search)+

text \<open>
  C1, amended. Pre-calculation on loaded servers that are fresh (empty accumulators,
  capacities that are not negative) yields a state in which every server's accumulated
  demand is within its capacity in the five dimensions of \<open>canServe\<close>, and on loaded
  devices that have no negative demand it yields devices that have none. From any state
  in which every server is within its capacity, every server is within its capacity
  again after the random heuristic and after the greedy heuristic with any pair of
  flags, which also keep the demands of the devices: a device is committed only after
  \<open>canServe\<close>. When in addition no device has a negative demand, every server is
  within its capacity after a neighbour step, in the current and in the best solution
  when the annealing loop finishes, and in the state simulated annealing returns: a
  release lowers the accumulator by a demand that is not negative.
\<close>

theorem capacity_invariant:
  "(list_all fresh_server (loadServers numServersEC numServersCC) \<and>
    pre_calculation geo loadDevices loadServers simulation algorithm numDevices numServersEC
      numServersCC tech = Inr (Some st0) \<longrightarrow> list_all capacity_ok (st_servers st0)) \<and>
   (list_all nonneg_demand (loadDevices numDevices) \<and>
    pre_calculation geo loadDevices loadServers simulation algorithm numDevices numServersEC
      numServersCC tech = Inr (Some st0) \<longrightarrow> list_all nonneg_demand (st_devices st0)) \<and>
   (list_all nonneg_demand (st_devices st) \<longrightarrow>
      (randomHeuristic rs picks st = Inr st1 \<longrightarrow> list_all nonneg_demand (st_devices st1)) \<and>
      (greedyHeuristic st sortDevicesAsc sortServersAsc = Inr st2 \<longrightarrow>
         list_all nonneg_demand (st_devices st2))) \<and>
   (list_all capacity_ok (st_servers st) \<longrightarrow>
      (randomHeuristic rs picks st = Inr st1 \<longrightarrow> list_all capacity_ok (st_servers st1)) \<and>
      (greedyHeuristic st sortDevicesAsc sortServersAsc = Inr st2 \<longrightarrow>
         list_all capacity_ok (st_servers st2))) \<and>
   (list_all capacity_ok (st_servers st) \<and> list_all nonneg_demand (st_devices st) \<longrightarrow>
      (generateNeighbor (st_devices st) (st_servers st) coveredIdx cns csu d
         = Inr (devs', srvs', cns', csu') \<longrightarrow> list_all capacity_ok srvs') \<and>
      (sa_outer coveredIdx T alpha dss (sa_init st) = Some (Inr sa) \<longrightarrow>
         list_all capacity_ok (bestServers sa) \<and> list_all capacity_ok (currentServers sa)) \<and>
      (simulatedAnnealing st T alpha dss = Some (Inr st3) \<longrightarrow>
         list_all capacity_ok (st_servers st3)))"
proof (intro conjI impI)
  assume "list_all fresh_server (loadServers numServersEC numServersCC) \<and>
    pre_calculation geo loadDevices loadServers simulation algorithm numDevices numServersEC
      numServersCC tech = Inr (Some st0)"
  then show "list_all capacity_ok (st_servers st0)"
    using pre_calculation_within_capacity by blast
next
  assume "list_all nonneg_demand (loadDevices numDevices) \<and>
    pre_calculation geo loadDevices loadServers simulation algorithm numDevices numServersEC
      numServersCC tech = Inr (Some st0)"
  then show "list_all nonneg_demand (st_devices st0)"
    using pre_calculation_demands by blast
next
  assume "list_all nonneg_demand (st_devices st)" "randomHeuristic rs picks st = Inr st1"
  then show "list_all nonneg_demand (st_devices st1)"
    using randomHeuristic_frame devs_frame_nonneg by blast
next
  assume "list_all nonneg_demand (st_devices st)"
    "greedyHeuristic st sortDevicesAsc sortServersAsc = Inr st2"
  then show "list_all nonneg_demand (st_devices st2)"
    using greedyHeuristic_frame devs_frame_perm_nonneg by blast
next
  assume h: "list_all capacity_ok (st_servers st)" "randomHeuristic rs picks st = Inr st1"
  show "list_all capacity_ok (st_servers st1)"
  proof (rule randomHeuristic_pres[where P=capacity_ok, OF _ h])
    show "\<And>s d ok s' d'. capacity_ok s \<Longrightarrow> canServe s d \<Longrightarrow> addServed s d = (ok, s', d')
            \<Longrightarrow> capacity_ok s'"
      by (rule addServed_capacity_ok)
  qed
next
  assume h: "list_all capacity_ok (st_servers st)"
    "greedyHeuristic st sortDevicesAsc sortServersAsc = Inr st2"
  show "list_all capacity_ok (st_servers st2)"
  proof (rule greedyHeuristic_pres[where P=capacity_ok, OF _ h])
    show "\<And>s d ok s' d'. capacity_ok s \<Longrightarrow> canServe s d \<Longrightarrow> addServed s d = (ok, s', d')
            \<Longrightarrow> capacity_ok s'"
      by (rule addServed_capacity_ok)
  qed
next
  assume h: "list_all capacity_ok (st_servers st) \<and> list_all nonneg_demand (st_devices st)"
    "generateNeighbor (st_devices st) (st_servers st) coveredIdx cns csu d
       = Inr (devs', srvs', cns', csu')"
  from generateNeighbor_capacity[OF h] show "list_all capacity_ok srvs'" by simp
next
  assume h: "list_all capacity_ok (st_servers st) \<and> list_all nonneg_demand (st_devices st)"
    and run: "sa_outer coveredIdx T alpha dss (sa_init st) = Some (Inr sa)"
  from sa_outer_capacity[OF _ _ run] h
  show "list_all capacity_ok (bestServers sa)" "list_all capacity_ok (currentServers sa)"
    by simp_all
next
  assume "list_all capacity_ok (st_servers st) \<and> list_all nonneg_demand (st_devices st)"
    "simulatedAnnealing st T alpha dss = Some (Inr st3)"
  then show "list_all capacity_ok (st_servers st3)"
    by (simp add: simulatedAnnealing_state(2))
qed

lemma ex_pre_capacity: "list_all capacity_ok (st_servers ex_pre)"
  by (simp add: ex_defs capacity_ok_def)

lemma ex_pre_nonneg: "list_all nonneg_demand (st_devices ex_pre)"
  by (simp add: ex_defs nonneg_demand_def)

lemma ex_state_capacity:
  "list_all capacity_ok (st_servers ex_state) \<and> list_all nonneg_demand (st_devices ex_state)"
  by (simp add: ex_defs capacity_ok_def nonneg_demand_def)

lemma ex_loaded_fresh:
  "list_all fresh_server ex_loaded_servers \<and> list_all nonneg_demand ex_loaded_devices"
  by (simp add: ex_defs fresh_server_def nonneg_demand_def)

lemma ex_pre_calculated:
  "pre_calculation ex_geo (\<lambda>n. ex_loaded_devices) (\<lambda>ec cc. ex_loaded_servers)
     ''Heuristic'' ''Random'' 2 1 1 4 = Inr (Some ex_pre_calculated)"
  using ex_pre_calculation_4g by (auto simp: ex_pre_calculated_def)

theorem capacity_invariant_witness:
  "list_all fresh_server ex_loaded_servers \<and> list_all nonneg_demand ex_loaded_devices \<and>
   pre_calculation ex_geo (\<lambda>n. ex_loaded_devices) (\<lambda>ec cc. ex_loaded_servers)
     ''Heuristic'' ''Random'' 2 1 1 4 = Inr (Some ex_pre_calculated) \<and>
   list_all capacity_ok (st_servers ex_pre_calculated) \<and>
   list_all nonneg_demand (st_devices ex_pre_calculated) \<and>
   list_all capacity_ok (st_servers ex_pre) \<and> list_all nonneg_demand (st_devices ex_pre) \<and>
   randomHeuristic [] (\<lambda>k. 0) ex_pre = Inr ex_committed \<and>
   greedyHeuristic ex_pre True True = Inr ex_committed \<and>
   list_all capacity_ok (st_servers ex_committed) \<and>
   list_all nonneg_demand (st_devices ex_committed) \<and>
   list_all capacity_ok (st_servers ex_state) \<and> list_all nonneg_demand (st_devices ex_state) \<and>
   generateNeighbor (st_devices ex_state) (st_servers ex_state) (coveredDevicesIdx ex_state)
     5 0 ex_draw = Inr ([Device0, ex_served], [Server0, ex_loaded], 0, 1) \<and>
   list_all capacity_ok [Server0, ex_loaded] \<and>
   sa_outer [1] (1 / 500) (1 / 2) [replicate 10 ex_draw] (sa_init ex_state)
     = Some (Inr ex_sa_moved) \<and>
   list_all capacity_ok (bestServers ex_sa_moved) \<and>
   list_all capacity_ok (currentServers ex_sa_moved) \<and>
   simulatedAnnealing ex_state (1 / 500) (1 / 2) [replicate 10 ex_draw]
     = Some (Inr (ex_state\<lparr>metrics := ex_metrics_served\<rparr>)) \<and>
   list_all capacity_ok (st_servers (ex_state\<lparr>metrics := ex_metrics_served\<rparr>))"
proof -
  note pre = capacity_invariant[THEN conjunct1, THEN mp]
  note loaded = capacity_invariant[THEN conjunct2, THEN conjunct1, THEN mp]
  note demands = capacity_invariant[THEN conjunct2, THEN conjunct2, THEN conjunct1, THEN mp]
  note heur = capacity_invariant[THEN conjunct2, THEN conjunct2, THEN conjunct2, THEN conjunct1,
      THEN mp]
  note anneal = capacity_invariant[THEN conjunct2, THEN conjunct2, THEN conjunct2,
      THEN conjunct2, THEN mp]
  have p: "list_all fresh_server ((\<lambda>ec cc. ex_loaded_servers) 1 1) \<and>
      pre_calculation ex_geo (\<lambda>n. ex_loaded_devices) (\<lambda>ec cc. ex_loaded_servers)
        ''Heuristic'' ''Random'' 2 1 1 4 = Inr (Some ex_pre_calculated)"
    using ex_loaded_fresh ex_pre_calculated by simp
  have q: "list_all nonneg_demand ((\<lambda>n. ex_loaded_devices) 2) \<and>
      pre_calculation ex_geo (\<lambda>n. ex_loaded_devices) (\<lambda>ec cc. ex_loaded_servers)
        ''Heuristic'' ''Random'' 2 1 1 4 = Inr (Some ex_pre_calculated)"
    using ex_loaded_fresh ex_pre_calculated by simp
  have n: "generateNeighbor (st_devices ex_state) (st_servers ex_state) [1] 5 0 ex_draw
      = Inr ([Device0, ex_served], [Server0, ex_loaded], 0, 1)"
    using ex_neighbor by (simp add: ex_covered)
  have c0: "list_all capacity_ok (st_servers ex_pre_calculated)"
    using pre[OF p] .
  have d0: "list_all nonneg_demand (st_devices ex_pre_calculated)"
    using loaded[OF q] .
  have c1: "list_all capacity_ok (st_servers ex_committed)"
    using heur[OF ex_pre_capacity, THEN conjunct1, THEN mp, OF ex_random_commit] .
  have d1: "list_all nonneg_demand (st_devices ex_committed)"
    using demands[OF ex_pre_nonneg, THEN conjunct2, THEN mp, OF ex_greedy_commit] .
  have c2: "list_all capacity_ok [Server0, ex_loaded]"
    using anneal[OF ex_state_capacity, THEN conjunct1, THEN mp, OF n] .
  have c3: "list_all capacity_ok (bestServers ex_sa_moved) \<and>
            list_all capacity_ok (currentServers ex_sa_moved)"
    using anneal[OF ex_state_capacity, THEN conjunct2, THEN conjunct1, THEN mp, OF ex_outer] .
  have c4: "list_all capacity_ok (st_servers (ex_state\<lparr>metrics := ex_metrics_served\<rparr>))"
    using anneal[OF ex_state_capacity, THEN conjunct2, THEN conjunct2, THEN mp,
        OF ex_annealing] .
  show ?thesis
    using ex_loaded_fresh ex_pre_calculated c0 d0 ex_pre_capacity ex_pre_nonneg ex_random_commit
      ex_greedy_commit c1 d1 ex_state_capacity ex_neighbor c2 ex_outer c3 ex_annealing c4
    by (intro conjI) blast+
qed

section \<open>Activation invariant\<close>

text \<open>
  C5. A freshly constructed server satisfies \<open>on = (served set is not empty)\<close>,
  pre-calculation keeps it on the loaded servers, and every call of \<open>addServed\<close> and of
  \<open>rmvServed\<close> keeps it, whether the call succeeds or not. Hence it holds for every
  server after the random heuristic, the greedy heuristic, a neighbour step, in the
  current and best solution of the annealing loop, and in the state simulated annealing
  returns, when it held for every server before.
\<close>

theorem activation_invariant:
  "active_ok Server0 \<and> active_ok (mkServer id0 lat0 lon0 csc0 pcc0 pcn0 mem0 sto0 t_p0 type0) \<and>
   (list_all active_ok (loadServers numServersEC numServersCC) \<and>
    pre_calculation geo loadDevices loadServers simulation algorithm numDevices numServersEC
      numServersCC tech = Inr (Some st0) \<longrightarrow> list_all active_ok (st_servers st0)) \<and>
   (active_ok s \<longrightarrow>
      active_ok (fst (snd (addServed s device))) \<and> active_ok (fst (snd (rmvServed s device)))) \<and>
   (list_all active_ok (st_servers st) \<longrightarrow>
      (randomHeuristic rs picks st = Inr st1 \<longrightarrow> list_all active_ok (st_servers st1)) \<and>
      (greedyHeuristic st sortDevicesAsc sortServersAsc = Inr st2 \<longrightarrow>
         list_all active_ok (st_servers st2)) \<and>
      (generateNeighbor (st_devices st) (st_servers st) coveredIdx cns csu d
         = Inr (devs', srvs', cns', csu') \<longrightarrow> list_all active_ok srvs') \<and>
      (sa_outer coveredIdx T alpha dss (sa_init st) = Some (Inr sa) \<longrightarrow>
         list_all active_ok (bestServers sa) \<and> list_all active_ok (currentServers sa)) \<and>
      (simulatedAnnealing st T alpha dss = Some (Inr st3) \<longrightarrow>
         list_all active_ok (st_servers st3)))"
proof (intro conjI impI)
  show "active_ok Server0" by (simp add: active_ok_def Server0_def server_supply0_def)
  show "active_ok (mkServer id0 lat0 lon0 csc0 pcc0 pcn0 mem0 sto0 t_p0 type0)"
    by (simp add: active_ok_def mkServer_def server_supply0_def)
next
  assume "list_all active_ok (loadServers numServersEC numServersCC) \<and>
    pre_calculation geo loadDevices loadServers simulation algorithm numDevices numServersEC
      numServersCC tech = Inr (Some st0)"
  then show "list_all active_ok (st_servers st0)"
    using pre_calculation_active by blast
next
  assume "active_ok s"
  then show "active_ok (fst (snd (addServed s device)))"
    by (cases "addServed s device") (auto dest: addServed_active_ok)
next
  assume "active_ok s"
  then show "active_ok (fst (snd (rmvServed s device)))"
    by (cases "rmvServed s device") (auto dest: rmvServed_active_ok)
next
  assume h: "list_all active_ok (st_servers st)" "randomHeuristic rs picks st = Inr st1"
  show "list_all active_ok (st_servers st1)"
  proof (rule randomHeuristic_pres[where P=active_ok, OF _ h])
    show "\<And>s d ok s' d'. active_ok s \<Longrightarrow> canServe s d \<Longrightarrow> addServed s d = (ok, s', d')
            \<Longrightarrow> active_ok s'"
      by (rule addServed_active_ok)
  qed
next
  assume h: "list_all active_ok (st_servers st)"
    "greedyHeuristic st sortDevicesAsc sortServersAsc = Inr st2"
  show "list_all active_ok (st_servers st2)"
  proof (rule greedyHeuristic_pres[where P=active_ok, OF _ h])
    show "\<And>s d ok s' d'. active_ok s \<Longrightarrow> canServe s d \<Longrightarrow> addServed s d = (ok, s', d')
            \<Longrightarrow> active_ok s'"
      by (rule addServed_active_ok)
  qed
next
  assume "list_all active_ok (st_servers st)"
    "generateNeighbor (st_devices st) (st_servers st) coveredIdx cns csu d
       = Inr (devs', srvs', cns', csu')"
  then show "list_all active_ok srvs'" by (rule generateNeighbor_active)
next
  assume h: "list_all active_ok (st_servers st)"
    and run: "sa_outer coveredIdx T alpha dss (sa_init st) = Some (Inr sa)"
  from sa_outer_active[OF h run]
  show "list_all active_ok (bestServers sa)" "list_all active_ok (currentServers sa)"
    by simp_all
next
  assume "list_all active_ok (st_servers st)"
    "simulatedAnnealing st T alpha dss = Some (Inr st3)"
  then show "list_all active_ok (st_servers st3)"
    by (simp add: simulatedAnnealing_state(2))
qed

lemma ex_pre_active: "list_all active_ok (st_servers ex_pre)"
  by (simp add: ex_defs active_ok_def)

lemma ex_state_active: "list_all active_ok (st_servers ex_state)"
  by (simp add: ex_defs active_ok_def)

lemma ex_add: "addServed ex_server ex_device = (True, ex_loaded, ex_device\<lparr>served := True\<rparr>)"
  by (simp add: ex_defs addServed_def)

lemma ex_rmv: "rmvServed ex_loaded ex_served = (True, ex_server, ex_served\<lparr>served := False\<rparr>)"
  by (simp add: ex_defs rmvServed_def)

theorem activation_invariant_witness:
  "list_all active_ok ex_loaded_servers \<and>
   pre_calculation ex_geo (\<lambda>n. ex_loaded_devices) (\<lambda>ec cc. ex_loaded_servers)
     ''Heuristic'' ''Random'' 2 1 1 4 = Inr (Some ex_pre_calculated) \<and>
   list_all active_ok (st_servers ex_pre_calculated) \<and>
   active_ok ex_server \<and> active_ok ex_loaded \<and>
   addServed ex_server ex_device = (True, ex_loaded, ex_device\<lparr>served := True\<rparr>) \<and>
   rmvServed ex_loaded ex_served = (True, ex_server, ex_served\<lparr>served := False\<rparr>) \<and>
   srv_on ex_loaded \<and> \<not> srv_on ex_server \<and>
   list_all active_ok (st_servers ex_pre) \<and>
   randomHeuristic [] (\<lambda>k. 0) ex_pre = Inr ex_committed \<and>
   greedyHeuristic ex_pre True True = Inr ex_committed \<and>
   list_all active_ok (st_servers ex_committed) \<and>
   list_all active_ok (st_servers ex_state) \<and>
   generateNeighbor (st_devices ex_state) (st_servers ex_state) (coveredDevicesIdx ex_state)
     5 0 ex_draw = Inr ([Device0, ex_served], [Server0, ex_loaded], 0, 1) \<and>
   list_all active_ok [Server0, ex_loaded] \<and>
   sa_outer [1] (1 / 500) (1 / 2) [replicate 10 ex_draw] (sa_init ex_state)
     = Some (Inr ex_sa_moved) \<and>
   list_all active_ok (bestServers ex_sa_moved) \<and>
   list_all active_ok (currentServers ex_sa_moved) \<and>
   simulatedAnnealing ex_state (1 / 500) (1 / 2) [replicate 10 ex_draw]
     = Some (Inr (ex_state\<lparr>metrics := ex_metrics_served\<rparr>)) \<and>
   list_all active_ok (st_servers (ex_state\<lparr>metrics := ex_metrics_served\<rparr>))"
proof -
  note pre = activation_invariant[THEN conjunct2, THEN conjunct2, THEN conjunct1, THEN mp]
  note ops = activation_invariant[THEN conjunct2, THEN conjunct2, THEN conjunct2,
      THEN conjunct1, THEN mp]
  note runs = activation_invariant[THEN conjunct2, THEN conjunct2, THEN conjunct2,
      THEN conjunct2, THEN mp]
  have la: "list_all active_ok ex_loaded_servers" by (simp add: ex_defs active_ok_def)
  have p: "list_all active_ok ((\<lambda>ec cc. ex_loaded_servers) 1 1) \<and>
      pre_calculation ex_geo (\<lambda>n. ex_loaded_devices) (\<lambda>ec cc. ex_loaded_servers)
        ''Heuristic'' ''Random'' 2 1 1 4 = Inr (Some ex_pre_calculated)"
    using la ex_pre_calculated by simp
  have c0: "list_all active_ok (st_servers ex_pre_calculated)" using pre[OF p] .
  have s0: "active_ok ex_server" by (simp add: ex_defs active_ok_def)
  have "active_ok (fst (snd (addServed ex_server ex_device)))"
    by (rule ops[OF s0, THEN conjunct1])
  then have s1: "active_ok ex_loaded" by (simp add: ex_add)
  have on: "srv_on ex_loaded \<and> \<not> srv_on ex_server" by (simp add: ex_defs)
  have n: "generateNeighbor (st_devices ex_state) (st_servers ex_state) [1] 5 0 ex_draw
      = Inr ([Device0, ex_served], [Server0, ex_loaded], 0, 1)"
    using ex_neighbor by (simp add: ex_covered)
  have c1: "list_all active_ok (st_servers ex_committed)"
    using runs[OF ex_pre_active, THEN conjunct1, THEN mp, OF ex_random_commit] .
  have c2: "list_all active_ok [Server0, ex_loaded]"
    using runs[OF ex_state_active, THEN conjunct2, THEN conjunct2, THEN conjunct1, THEN mp,
        OF n] .
  have c3: "list_all active_ok (bestServers ex_sa_moved) \<and>
            list_all active_ok (currentServers ex_sa_moved)"
    using runs[OF ex_state_active, THEN conjunct2, THEN conjunct2, THEN conjunct2,
        THEN conjunct1, THEN mp, OF ex_outer] .
  have c4: "list_all active_ok (st_servers (ex_state\<lparr>metrics := ex_metrics_served\<rparr>))"
    using runs[OF ex_state_active, THEN conjunct2, THEN conjunct2, THEN conjunct2,
        THEN conjunct2, THEN mp, OF ex_annealing] .
  show ?thesis
    using la ex_pre_calculated c0 s0 s1 ex_add ex_rmv on ex_pre_active ex_random_commit
      ex_greedy_commit c1
      ex_state_active ex_neighbor c2 ex_outer c3 ex_annealing c4
    by (intro conjI) blast+
qed

end
